theory Spec2Isabelle
  imports Main "HOL-Library.List_Lexorder" "HOL-Library.Char_ord"
begin

section \<open>Errors\<close>

text \<open>
  Every way in which the C++ can leave the normal control flow is a value of this type:
  an exception thrown by a constructor, a failed \<open>assert\<close>, the dereference of a null
  pointer and an index past the end of a \<open>std::vector\<close>.
\<close>

datatype error =
    CapacityMisuse
  | LengthError
  | AssertionFailed
  | NullPointerDereference
  | InvalidPointer
  | IndexOutOfRange

section \<open>Circular\_Buffer\<close>

text \<open>
  Modelled from the spec: \<open>Circular_Buffer.hpp\<close> is included by
  \<open>Buffered_Socket.cpp\<close> but is not among the sources. The record follows section 3 of
  the specification (RingBuffer): a fixed number of record slots arranged as a circular
  array, a write cursor, a read cursor, the count of occupied slots and the stopped flag.
\<close>

record 'a Circular_Buffer =
  slots :: "'a list list"
  write_cursor :: nat
  read_cursor :: nat
  occupied :: nat
  stopped :: bool

text \<open>
  Modelled from the spec: the capacity of a buffer is its number of slots (section 3).
\<close>

definition capacity :: "'a Circular_Buffer \<Rightarrow> nat" where
  "capacity b = length (slots b)"

text \<open>
  Modelled from the spec: the constructor \<open>Circular_Buffer<T>(buffer_size, n_elt)\<close> of
  the absent \<open>Circular_Buffer.hpp\<close>. Section 4.1: capacity must be at least 1 and the record width is fixed at construction;
  section 7 (CapacityMisuse): a zero or negative capacity fails fast at construction.
\<close>

definition Circular_Buffer_new :: "int \<Rightarrow> nat \<Rightarrow> error + ('a::zero) Circular_Buffer" where
  "Circular_Buffer_new buffer_size n_elt =
     (if buffer_size < 1 then Inl CapacityMisuse
      else Inr \<lparr>slots = replicate (nat buffer_size) (replicate n_elt 0),
                write_cursor = 0, read_cursor = 0, occupied = 0, stopped = False\<rparr>)"

text \<open>
  Modelled from the spec: \<open>reset()\<close> of the absent \<open>Circular_Buffer.hpp\<close> clears
  the occupied count and the cursors and clears the stopped flag (section 4.1).
\<close>

definition Circular_Buffer_reset :: "'a Circular_Buffer \<Rightarrow> 'a Circular_Buffer" where
  "Circular_Buffer_reset b =
     b\<lparr>write_cursor := 0, read_cursor := 0, occupied := 0, stopped := False\<rparr>"

text \<open>
  Modelled from the spec: \<open>stop()\<close> of the absent \<open>Circular_Buffer.hpp\<close> sets the
  stopped flag (section 4.1).
\<close>

definition Circular_Buffer_stop :: "'a Circular_Buffer \<Rightarrow> 'a Circular_Buffer" where
  "Circular_Buffer_stop b = b\<lparr>stopped := True\<rparr>"

text \<open>
  Modelled from the spec: the non-blocking \<open>push\<close> of the absent
  \<open>Circular_Buffer.hpp\<close> (\<open>try_push\<close> of section 4.1). If the
  buffer is full it fails without changing the state; otherwise it copies the record into
  the next free slot, advances the write cursor and increments the occupied count.
  The integer result follows the callers in \<open>Buffered_Socket.cpp\<close>, which retry while
  the result is 1: 1 is failure, 0 is success.
\<close>

definition Circular_Buffer_push :: "'a list \<Rightarrow> 'a Circular_Buffer \<Rightarrow> int \<times> 'a Circular_Buffer" where
  "Circular_Buffer_push r b =
     (if occupied b = capacity b then (1, b)
      else (0, b\<lparr>slots := (slots b)[write_cursor b := r],
                  write_cursor := (write_cursor b + 1) mod capacity b,
                  occupied := occupied b + 1\<rparr>))"

text \<open>
  Modelled from the spec: the non-blocking \<open>pop\<close> of the absent
  \<open>Circular_Buffer.hpp\<close> (\<open>try_pop\<close>), symmetric to push and
  operating on the oldest occupied slot. The second argument is the caller's record, which
  is returned unchanged when the buffer is empty and replaced by the oldest record
  otherwise.
\<close>

definition Circular_Buffer_pop ::
  "'a Circular_Buffer \<Rightarrow> 'a list \<Rightarrow> int \<times> 'a Circular_Buffer \<times> 'a list" where
  "Circular_Buffer_pop b out =
     (if occupied b = 0 then (1, b, out)
      else (0, b\<lparr>read_cursor := (read_cursor b + 1) mod capacity b,
                  occupied := occupied b - 1\<rparr>,
               slots b ! read_cursor b))"

text \<open>
  A single producer and a single consumer working on one buffer: a schedule is a list of
  operations, each either the producer's attempt to push a record or the consumer's
  attempt to pop. \<open>rb_run\<close> performs the schedule and collects the records whose push
  was accepted and the records that were handed out by a successful pop, oldest first.
\<close>

datatype 'a rb_op = Push "'a list" | Pop

record 'a rb_trace =
  pushed :: "'a list list"
  popped :: "'a list list"
  buf :: "'a Circular_Buffer"

fun rb_step :: "'a rb_trace \<Rightarrow> 'a rb_op \<Rightarrow> 'a rb_trace" where
  "rb_step s (Push r) =
     (case Circular_Buffer_push r (buf s) of
        (rc, b') \<Rightarrow> if rc = 1 then s\<lparr>buf := b'\<rparr>
                    else s\<lparr>pushed := pushed s @ [r], buf := b'\<rparr>)"
| "rb_step s Pop =
     (case Circular_Buffer_pop (buf s) [] of
        (rc, b', r) \<Rightarrow> if rc = 1 then s\<lparr>buf := b'\<rparr>
                       else s\<lparr>popped := popped s @ [r], buf := b'\<rparr>)"

definition rb_run :: "'a rb_op list \<Rightarrow> 'a Circular_Buffer \<Rightarrow> 'a rb_trace" where
  "rb_run ops b = foldl rb_step \<lparr>pushed = [], popped = [], buf = b\<rparr> ops"

text \<open>The queued records of a buffer, oldest first, and the representation invariant.\<close>

definition cb_contents :: "'a Circular_Buffer \<Rightarrow> 'a list list" where
  "cb_contents b =
     map (\<lambda>i. slots b ! ((read_cursor b + i) mod capacity b)) [0..<occupied b]"

definition cb_inv :: "'a Circular_Buffer \<Rightarrow> bool" where
  "cb_inv b \<longleftrightarrow>
     0 < capacity b \<and> read_cursor b < capacity b \<and> occupied b \<le> capacity b \<and>
     write_cursor b = (read_cursor b + occupied b) mod capacity b"

text \<open>
  The invariant of a run of a schedule: the records accepted so far are the records
  handed out so far followed by the records still queued.
\<close>

definition rb_inv :: "'a rb_trace \<Rightarrow> bool" where
  "rb_inv s \<longleftrightarrow> cb_inv (buf s) \<and> pushed s = popped s @ cb_contents (buf s)"

section \<open>Buffered\_Socket\<close>

text \<open>
  The task sockets belong to the AFF3CT library. The model keeps the members the code
  reads: the name, the datatype string, the number of elements, and the data pointer set
  by \<open>Socket::bind\<close>. The data pointer is the index of the staging record of the owning
  port that the socket currently refers to (\<open>None\<close> before the first bind).
\<close>

datatype Socket_type = IN | IN_OUT | OUT

record Socket =
  sck_name :: string
  datatype_string :: string
  n_elmts :: nat
  dataptr :: "nat option"

text \<open>
  Circular buffers are shared between ports through pointers, so they live in a store:
  the address of a buffer is its index, and \<open>new\<close> appends to the store.
\<close>

type_synonym 'a heap = "'a Circular_Buffer list"

text \<open>
  \<open>Buffered_Socket<T>\<close> with the members of its base class that the code uses
  (\<open>socket\<close>, \<open>socket_type\<close>, \<open>buffer_size\<close>). The element type \<open>T\<close> is the type
  variable; which of the six instantiations a port is, is recorded by the datatype string
  of its socket.
\<close>

record 'a Buffered_Socket =
  socket :: Socket
  socket_type :: Socket_type
  buffer_size :: int
  socket_data :: "'a list list"
  buffer :: "nat list"
  pop_buffer_idx :: int

text \<open>The constructor, \<open>Buffered_Socket.cpp\<close> lines 10 to 24.\<close>

definition Buffered_Socket_new ::
  "Socket \<Rightarrow> Socket_type \<Rightarrow> int \<Rightarrow> ('a::zero) heap \<Rightarrow> error + ('a Buffered_Socket \<times> 'a heap)" where
  "Buffered_Socket_new sck st bsize h =
     (let n_elt = n_elmts sck;
          this = \<lparr>socket = sck\<lparr>dataptr := Some 0\<rparr>, socket_type = st, buffer_size = bsize,
                  socket_data = [replicate n_elt 0], buffer = [], pop_buffer_idx = 0\<rparr>
      in if st = OUT \<or> st = IN_OUT then
           (case Circular_Buffer_new bsize n_elt of
              Inl e \<Rightarrow> Inl e
            | Inr b \<Rightarrow> Inr (this\<lparr>buffer := [length h]\<rparr>, h @ [b]))
         else Inr (this, h))"

text \<open>
  \<open>reset()\<close> and \<open>stop()\<close> forward to every buffer of the port. An address outside the
  store is a wild pointer.
\<close>

fun for_each_buffer ::
  "('a Circular_Buffer \<Rightarrow> 'a Circular_Buffer) \<Rightarrow> nat list \<Rightarrow> 'a heap \<Rightarrow> error + 'a heap" where
  "for_each_buffer f [] h = Inr h"
| "for_each_buffer f (a # as) h =
     (if a < length h then for_each_buffer f as (h[a := f (h ! a)]) else Inl InvalidPointer)"

definition Buffered_Socket_reset :: "'a Buffered_Socket \<Rightarrow> 'a heap \<Rightarrow> error + 'a heap" where
  "Buffered_Socket_reset this h = for_each_buffer Circular_Buffer_reset (buffer this) h"

definition Buffered_Socket_stop :: "'a Buffered_Socket \<Rightarrow> 'a heap \<Rightarrow> error + 'a heap" where
  "Buffered_Socket_stop this h = for_each_buffer Circular_Buffer_stop (buffer this) h"

text \<open>
  \<open>pop()\<close>, lines 57 to 68. \<open>buffer[0]\<close> and \<open>socket_data[0]\<close> index a
  \<open>std::vector\<close> without a check, so an empty vector is an error of the model.
  The result is the return value, the port and the store.
\<close>

definition Buffered_Socket_pop ::
  "'a Buffered_Socket \<Rightarrow> 'a heap \<Rightarrow> error + (int \<times> 'a Buffered_Socket \<times> 'a heap)" where
  "Buffered_Socket_pop this h =
     (case buffer this of
        [] \<Rightarrow> Inl IndexOutOfRange
      | a # _ \<Rightarrow>
         (case socket_data this of
            [] \<Rightarrow> Inl IndexOutOfRange
          | r0 # rs \<Rightarrow>
             if \<not> a < length h then Inl InvalidPointer
             else (case Circular_Buffer_pop (h ! a) r0 of
                     (rc, b', r0') \<Rightarrow>
                       if rc = 1 then Inr (1, this\<lparr>socket_data := r0' # rs\<rparr>, h[a := b'])
                       else Inr (0, this\<lparr>socket_data := r0' # rs,
                                         socket := (socket this)\<lparr>dataptr := Some 0\<rparr>\<rparr>,
                                 h[a := b']))))"

text \<open>
  The first loop nest of \<open>push()\<close>, lines 82 to 86: \<open>socket_data[i]->at(j) =
  socket_data[0]->at(j)\<close> for every \<open>j\<close> below the size of record 0. \<open>at\<close> throws when
  \<open>j\<close> is past the end of record \<open>i\<close>. \<open>copy_elts k src dst j\<close> runs the remaining \<open>k\<close>
  iterations of the inner loop from index \<open>j\<close>; \<open>copy_records\<close> is the outer loop from
  record 1 on, and \<open>copy_staging\<close> the whole nest on the vector of staging records.
\<close>

fun copy_elts :: "nat \<Rightarrow> 'a list \<Rightarrow> 'a list \<Rightarrow> nat \<Rightarrow> error + 'a list" where
  "copy_elts 0 src dst j = Inr dst"
| "copy_elts (Suc k) src dst j =
     (if j < length dst then copy_elts k src (dst[j := src ! j]) (Suc j)
      else Inl IndexOutOfRange)"

fun copy_records :: "'a list \<Rightarrow> 'a list list \<Rightarrow> error + 'a list list" where
  "copy_records r0 [] = Inr []"
| "copy_records r0 (r # rs) =
     (case copy_elts (length r0) r0 r 0 of
        Inl e \<Rightarrow> Inl e
      | Inr r' \<Rightarrow> (case copy_records r0 rs of Inl e \<Rightarrow> Inl e | Inr rs' \<Rightarrow> Inr (r' # rs')))"

definition copy_staging :: "'a list list \<Rightarrow> error + 'a list list" where
  "copy_staging sd =
     (case sd of
        [] \<Rightarrow> Inr []
      | r0 # rs \<Rightarrow> (case copy_records r0 rs of Inl e \<Rightarrow> Inl e | Inr rs' \<Rightarrow> Inr (r0 # rs')))"

text \<open>
  The retry loop of line 89, \<open>while (buffer[i]->push(&socket_data[i]) == 1) {}\<close>.
  The loop reads nothing but the buffer, which other threads change while it runs:
  \<open>others k\<close> is what they have done to the store when the \<open>k\<close>-th attempt of this call
  of \<open>push()\<close> is made. The loop ends with the attempt that is accepted and gives the
  number of the next attempt; on a buffer that every attempt finds full it runs forever:
  the function is partial, and \<open>None\<close> is "does not return".
\<close>

partial_function (option) retry_push ::
  "(nat \<Rightarrow> 'a heap \<Rightarrow> 'a heap) \<Rightarrow> nat \<Rightarrow> 'a list \<Rightarrow> nat \<Rightarrow> 'a heap \<Rightarrow> (error + nat \<times> 'a heap) option" where
  "retry_push others k r a h =
     (if \<not> a < length (others k h) then Some (Inl InvalidPointer)
      else (case Circular_Buffer_push r (others k h ! a) of
              (rc, b') \<Rightarrow> if rc = 1 then retry_push others (Suc k) r a ((others k h)[a := b'])
                          else Some (Inr (Suc k, (others k h)[a := b']))))"

declare retry_push.simps [code]

text \<open>
  The second loop of \<open>push()\<close>, lines 88 and 89, from index \<open>i\<close> on: the first list is
  what is left of \<open>buffer\<close>, and \<open>k\<close> is the number of the next attempt.
\<close>

fun push_buffers ::
  "(nat \<Rightarrow> 'a heap \<Rightarrow> 'a heap) \<Rightarrow> nat \<Rightarrow> nat list \<Rightarrow> nat \<Rightarrow> 'a list list \<Rightarrow> 'a heap \<Rightarrow>
     (error + nat \<times> 'a heap) option" where
  "push_buffers others k [] i sd h = Some (Inr (k, h))"
| "push_buffers others k (a # as) i sd h =
     (if \<not> i < length sd then Some (Inl IndexOutOfRange)
      else (case retry_push others k (sd ! i) a h of
              None \<Rightarrow> None
            | Some (Inl e) \<Rightarrow> Some (Inl e)
            | Some (Inr (k', h')) \<Rightarrow> push_buffers others k' as (Suc i) sd h'))"

text \<open>
  \<open>push()\<close>, lines 78 to 93. The first argument is what the other threads do during the
  call.
\<close>

definition Buffered_Socket_push ::
  "(nat \<Rightarrow> 'a heap \<Rightarrow> 'a heap) \<Rightarrow> 'a Buffered_Socket \<Rightarrow> 'a heap \<Rightarrow>
     (error + (int \<times> 'a Buffered_Socket \<times> 'a heap)) option" where
  "Buffered_Socket_push others this h =
     (case copy_staging (socket_data this) of
        Inl e \<Rightarrow> Some (Inl e)
      | Inr sd \<Rightarrow>
         (case push_buffers others 0 (buffer this) 0 sd h of
            None \<Rightarrow> None
          | Some (Inl e) \<Rightarrow> Some (Inl e)
          | Some (Inr (k, h')) \<Rightarrow>
             if sd = [] then Some (Inl IndexOutOfRange)
             else Some (Inr (0, this\<lparr>socket_data := sd,
                                    socket := (socket this)\<lparr>dataptr := Some 0\<rparr>\<rparr>, h'))))"

text \<open>
  No other thread touches the store: the environment of a port operation that runs alone.
\<close>

abbreviation quiet :: "nat \<Rightarrow> 'a heap \<Rightarrow> 'a heap" where
  "quiet \<equiv> \<lambda>k h. h"

text \<open>
  Modelled from the spec: \<open>get_last_buffer()\<close> is declared in \<open>Buffered_Socket.hpp\<close>,
  which is not among the sources. Section 4.2: binding fails if the other port has no
  buffer yet; so the function is null when the port has no buffer and the most recently
  added buffer otherwise.
\<close>

definition get_last_buffer :: "'a Buffered_Socket \<Rightarrow> nat option" where
  "get_last_buffer s = (if buffer s = [] then None else Some (last (buffer s)))"

text \<open>\<open>create_new_out_buffer()\<close>, lines 112 to 120.\<close>

definition create_new_out_buffer ::
  "('a::zero) Buffered_Socket \<Rightarrow> 'a heap \<Rightarrow> error + ('a Buffered_Socket \<times> 'a heap)" where
  "create_new_out_buffer this h =
     (if \<not> socket_type this \<noteq> IN then Inl AssertionFailed
      else let n_elt = n_elmts (socket this) in
        (case Circular_Buffer_new (buffer_size this) n_elt of
           Inl e \<Rightarrow> Inl e
         | Inr b \<Rightarrow> Inr (this\<lparr>socket_data := socket_data this @ [replicate n_elt 0],
                              buffer := buffer this @ [length h]\<rparr>, h @ [b])))"

text \<open>
  \<open>bind(s)\<close>, lines 122 to 133. The argument is a pointer: \<open>None\<close> is the null pointer,
  which \<open>s->get_last_buffer()\<close> dereferences.
\<close>

definition Buffered_Socket_bind ::
  "'a Buffered_Socket \<Rightarrow> 'a Buffered_Socket option \<Rightarrow> error + (int \<times> 'a Buffered_Socket)" where
  "Buffered_Socket_bind this s =
     (case s of
        None \<Rightarrow> Inl NullPointerDereference
      | Some s' \<Rightarrow>
         (case get_last_buffer s' of
            None \<Rightarrow> Inr (1, this)
          | Some a \<Rightarrow> Inr (0, this\<lparr>buffer := buffer this @ [a]\<rparr>)))"

text \<open>
  \<open>bind_cpy(s)\<close>, lines 135 to 148. The result is the return value, this port, the port
  \<open>s\<close> points to, and the store. After \<open>create_new_out_buffer\<close> the port \<open>s\<close> has
  a buffer, so the second \<open>get_last_buffer\<close> is not null.
\<close>

definition Buffered_Socket_bind_cpy ::
  "('a::zero) Buffered_Socket \<Rightarrow> 'a Buffered_Socket option \<Rightarrow> 'a heap \<Rightarrow>
     error + (int \<times> 'a Buffered_Socket \<times> 'a Buffered_Socket \<times> 'a heap)" where
  "Buffered_Socket_bind_cpy this s h =
     (if \<not> socket_type this = IN then Inl AssertionFailed
      else (case s of
              None \<Rightarrow> Inl NullPointerDereference
            | Some s' \<Rightarrow>
               (case get_last_buffer s' of
                  None \<Rightarrow> Inr (1, this, s', h)
                | Some _ \<Rightarrow>
                   (case create_new_out_buffer s' h of
                      Inl e \<Rightarrow> Inl e
                    | Inr (s'', h') \<Rightarrow>
                       (case get_last_buffer s'' of
                          None \<Rightarrow> Inl NullPointerDereference
                        | Some a \<Rightarrow> Inr (0, this\<lparr>buffer := buffer this @ [a]\<rparr>, s'', h'))))))"

section \<open>Block\<close>

text \<open>
  A task of the AFF3CT library, with what the constructor of \<open>Block\<close> reads or sets: its
  name, its sockets, each with the type \<open>get_socket_type\<close> gives, and the three flags.
\<close>

record Task =
  tsk_name :: string
  sockets :: "(Socket \<times> Socket_type) list"
  autoalloc :: bool
  autoexec :: bool
  fast :: bool

text \<open>
  The two \<open>std::map\<close>s from port names to ports are association lists kept in the order
  of the keys, the order in which a \<open>std::map\<close> is traversed. \<open>emplace\<close> inserts only
  when the key is absent.
\<close>

fun map_emplace :: "string \<Rightarrow> 'v \<Rightarrow> (string \<times> 'v) list \<Rightarrow> (string \<times> 'v) list" where
  "map_emplace k v [] = [(k, v)]"
| "map_emplace k v ((k', v') # m) =
     (if k = k' then (k', v') # m
      else if k < k' then (k, v) # (k', v') # m
      else (k', v') # map_emplace k v m)"

text \<open>Writing through the pointer stored under a key: the port under \<open>k\<close> becomes \<open>v\<close>.\<close>

fun map_assign :: "string \<Rightarrow> 'v \<Rightarrow> (string \<times> 'v) list \<Rightarrow> (string \<times> 'v) list" where
  "map_assign k v [] = []"
| "map_assign k v ((k', v') # m) =
     (if k = k' then (k', v) # m else (k', v') # map_assign k v m)"

record 'a Block =
  name :: string
  n_threads :: int
  tasks :: "Task list"
  block_buffer_size :: int
  buffered_sockets_in :: "(string \<times> 'a Buffered_Socket) list"
  buffered_sockets_out :: "(string \<times> 'a Buffered_Socket) list"

text \<open>
  The chain of comparisons of the datatype string in the constructor, lines 43 to 78 and
  83 to 125: each of the six branches creates the port, and there is no final \<open>else\<close>.
\<close>

definition has_port_branch :: "string \<Rightarrow> bool" where
  "has_port_branch dt \<longleftrightarrow>
     dt = ''int8'' \<or> dt = ''int16'' \<or> dt = ''int32'' \<or> dt = ''int64'' \<or>
     dt = ''float32'' \<or> dt = ''float64''"

text \<open>
  The loop over the sockets of the task, lines 33 to 127. \<open>Block.cpp\<close> hands the port
  constructor the vector \<open>s_vec\<close> of the socket's clones, one per thread, whereas the
  constructor in \<open>Buffered_Socket.cpp\<close> takes one socket; the clones have the name, the
  datatype and the size of the socket \<open>s\<close> itself, which is what the model passes.
  The port is constructed before \<open>emplace\<close> looks for the key.
\<close>

fun add_sockets ::
  "(Socket \<times> Socket_type) list \<Rightarrow> int \<Rightarrow> ('a::zero) Block \<Rightarrow> 'a heap \<Rightarrow> error + ('a Block \<times> 'a heap)" where
  "add_sockets [] bsize this h = Inr (this, h)"
| "add_sockets ((s, ty) # ss) bsize this h =
     (if ty = IN then
        (if has_port_branch (datatype_string s) then
           (case Buffered_Socket_new s ty bsize h of
              Inl e \<Rightarrow> Inl e
            | Inr (p, h') \<Rightarrow>
               add_sockets ss bsize
                 (this\<lparr>buffered_sockets_in := map_emplace (sck_name s) p (buffered_sockets_in this)\<rparr>) h')
         else add_sockets ss bsize this h)
      else
        (if has_port_branch (datatype_string s) then
           (case Buffered_Socket_new s ty bsize h of
              Inl e \<Rightarrow> Inl e
            | Inr (p, h') \<Rightarrow>
               add_sockets ss bsize
                 (this\<lparr>buffered_sockets_out := map_emplace (sck_name s) p (buffered_sockets_out this)\<rparr>) h')
         else add_sockets ss bsize this h))"

text \<open>
  The constructor, lines 11 to 128. The member \<open>threads(n_threads)\<close> is a
  \<open>std::vector\<close> of that size, whose constructor throws for a negative size.
\<close>

definition Block_new :: "Task \<Rightarrow> int \<Rightarrow> int \<Rightarrow> ('a::zero) heap \<Rightarrow> error + ('a Block \<times> 'a heap)" where
  "Block_new task bsize nthreads h =
     (if nthreads < 0 then Inl LengthError
      else let task' = task\<lparr>autoalloc := False, autoexec := False, fast := False\<rparr>;
               this = \<lparr>name = tsk_name task, n_threads = nthreads,
                       tasks = replicate (nat nthreads) task', block_buffer_size = bsize,
                       buffered_sockets_in = [], buffered_sockets_out = []\<rparr>
           in add_sockets (sockets task') bsize this h)"

text \<open>
  \<open>get_buffered_socket_in<T>\<close> and \<open>get_buffered_socket_out<T>\<close>, lines 212 to 234.
  The template argument is given by its name in \<open>type_to_string\<close>; the result is a
  pointer, null when the name is absent or the datatype differs.
\<close>

definition get_buffered_socket_in :: "string \<Rightarrow> 'a Block \<Rightarrow> string \<Rightarrow> 'a Buffered_Socket option" where
  "get_buffered_socket_in T this nm =
     (case map_of (buffered_sockets_in this) nm of
        Some p \<Rightarrow> if datatype_string (socket p) = T then Some p else None
      | None \<Rightarrow> None)"

definition get_buffered_socket_out :: "string \<Rightarrow> 'a Block \<Rightarrow> string \<Rightarrow> 'a Buffered_Socket option" where
  "get_buffered_socket_out T this nm =
     (case map_of (buffered_sockets_out this) nm of
        Some p \<Rightarrow> if datatype_string (socket p) = T then Some p else None
      | None \<Rightarrow> None)"

text \<open>
  \<open>Block::bind\<close>, lines 140 to 169: the same stanza for each of the six element types in
  turn, then the message and the result 1. The result is the return value and this block;
  the destination block is only read.
\<close>

definition scalar_kinds :: "string list" where
  "scalar_kinds = [''int8'', ''int16'', ''int32'', ''int64'', ''float32'', ''float64'']"

fun bind_stanzas ::
  "string list \<Rightarrow> 'a Block \<Rightarrow> string \<Rightarrow> 'a Block \<Rightarrow> string \<Rightarrow> error + (int \<times> 'a Block)" where
  "bind_stanzas [] this start_sck_name dest_block dest_sck_name = Inr (1, this)"
| "bind_stanzas (T # Ts) this start_sck_name dest_block dest_sck_name =
     (case get_buffered_socket_in T this start_sck_name of
        Some sck \<Rightarrow>
          (case Buffered_Socket_bind sck (get_buffered_socket_out T dest_block dest_sck_name) of
             Inl e \<Rightarrow> Inl e
           | Inr (rc, sck') \<Rightarrow>
               Inr (rc, this\<lparr>buffered_sockets_in :=
                              map_assign start_sck_name sck' (buffered_sockets_in this)\<rparr>))
      | None \<Rightarrow> bind_stanzas Ts this start_sck_name dest_block dest_sck_name)"

definition Block_bind ::
  "'a Block \<Rightarrow> string \<Rightarrow> 'a Block \<Rightarrow> string \<Rightarrow> error + (int \<times> 'a Block)" where
  "Block_bind this start_sck_name dest_block dest_sck_name =
     bind_stanzas scalar_kinds this start_sck_name dest_block dest_sck_name"

section \<open>The worker loop\<close>

text \<open>
  A worker runs beside other threads. What they do is given by an environment: the value
  of \<open>*isDone\<close> at each read, what the other threads have done to the buffers when the
  worker, at a given clock, makes the \<open>k\<close>-th attempt of a port operation (a \<open>pop\<close>
  makes one attempt, numbered 0), and what the task computes. The clock of the worker
  counts its reads of the flag. The task reads the records its input sockets point to and
  writes the records its output sockets point to.
\<close>

record 'a env =
  isDone :: "nat \<Rightarrow> bool"
  interfere :: "nat \<Rightarrow> nat \<Rightarrow> 'a heap \<Rightarrow> 'a heap"
  task_exec :: "(string \<times> 'a list) list \<Rightarrow> string \<Rightarrow> 'a list \<Rightarrow> 'a list"

text \<open>
  The events of a run, kept in the worker's trace: the body of the main loop is entered,
  the flag is read as set in a polling loop, a port's \<open>pop\<close> returned 0, the task is
  executed, a port's \<open>push\<close> returned 0.
\<close>

datatype event = Iteration | Stop_seen | Popped string | Exec | Pushed string

record 'a worker =
  clock :: nat
  block :: "'a Block"
  store :: "'a heap"
  trace :: "event list"

text \<open>
  How a call ends: it returns, the fuel of the model runs out, the worker is inside a call
  that never returns, or the behaviour is undefined.
\<close>

datatype 'a outcome =
    Returned "'a worker"
  | OutOfFuel "'a worker"
  | Hangs "'a worker"
  | Crashed error "'a worker"

fun state_of :: "'a outcome \<Rightarrow> 'a worker" where
  "state_of (Returned w) = w"
| "state_of (OutOfFuel w) = w"
| "state_of (Hangs w) = w"
| "state_of (Crashed e w) = w"

definition staged :: "'a Buffered_Socket \<Rightarrow> 'a list" where
  "staged p =
     (case dataptr (socket p) of
        Some i \<Rightarrow> if i < length (socket_data p) then socket_data p ! i else []
      | None \<Rightarrow> [])"

definition write_staged :: "'a list \<Rightarrow> 'a Buffered_Socket \<Rightarrow> 'a Buffered_Socket" where
  "write_staged r p =
     (case dataptr (socket p) of
        Some i \<Rightarrow> p\<lparr>socket_data := (socket_data p)[i := r]\<rparr>
      | None \<Rightarrow> p)"

definition exec_task :: "'a env \<Rightarrow> 'a Block \<Rightarrow> 'a Block" where
  "exec_task E this =
     (let ins = map (\<lambda>(nm, p). (nm, staged p)) (buffered_sockets_in this)
      in this\<lparr>buffered_sockets_out :=
                map (\<lambda>(nm, p). (nm, write_staged (task_exec E ins nm (staged p)) p))
                    (buffered_sockets_out this)\<rparr>)"

text \<open>
  Line 191, \<open>while (!(*isDone) && it.second->pop(task_id)) {}\<close>, for the port named
  \<open>nm\<close>. The port operations of \<open>Buffered_Socket.cpp\<close> take no slot index, so the model
  calls them without \<open>task_id\<close>. The ports are reached through the map of the block; the
  key is one of the map, so the lookup finds it.
\<close>

fun pop_loop :: "nat \<Rightarrow> 'a env \<Rightarrow> string \<Rightarrow> 'a worker \<Rightarrow> 'a outcome" where
  "pop_loop 0 E nm w = OutOfFuel w"
| "pop_loop (Suc n) E nm w =
     (if isDone E (clock w) then
        Returned (w\<lparr>clock := Suc (clock w), trace := trace w @ [Stop_seen]\<rparr>)
      else
        (let h = interfere E (clock w) 0 (store w);
             w1 = w\<lparr>clock := Suc (clock w), store := h\<rparr>
         in case map_of (buffered_sockets_in (block w)) nm of
              None \<Rightarrow> Crashed InvalidPointer w1
            | Some p \<Rightarrow>
               (case Buffered_Socket_pop p h of
                  Inl e \<Rightarrow> Crashed e w1
                | Inr (rc, p', h') \<Rightarrow>
                   (let w2 = w1\<lparr>store := h',
                                block := (block w)\<lparr>buffered_sockets_in :=
                                   map_assign nm p' (buffered_sockets_in (block w))\<rparr>\<rparr>
                    in if rc \<noteq> 0 then pop_loop n E nm w2
                       else Returned (w2\<lparr>trace := trace w2 @ [Popped nm]\<rparr>)))))"

text \<open>Line 190, the loop over the input ports.\<close>

fun pop_inputs :: "nat \<Rightarrow> 'a env \<Rightarrow> string list \<Rightarrow> 'a worker \<Rightarrow> 'a outcome" where
  "pop_inputs n E [] w = Returned w"
| "pop_inputs n E (nm # nms) w =
     (case pop_loop n E nm w of
        Returned w' \<Rightarrow> pop_inputs n E nms w'
      | other \<Rightarrow> other)"

text \<open>
  Line 198, \<open>while (!(*isDone) && it.second->push(task_id)) {}\<close>. A \<open>push\<close> that does
  not return leaves the worker inside the call.
\<close>

fun push_loop :: "nat \<Rightarrow> 'a env \<Rightarrow> string \<Rightarrow> 'a worker \<Rightarrow> 'a outcome" where
  "push_loop 0 E nm w = OutOfFuel w"
| "push_loop (Suc n) E nm w =
     (if isDone E (clock w) then Returned (w\<lparr>clock := Suc (clock w)\<rparr>)
      else
        (let w1 = w\<lparr>clock := Suc (clock w)\<rparr>
         in case map_of (buffered_sockets_out (block w)) nm of
              None \<Rightarrow> Crashed InvalidPointer w1
            | Some p \<Rightarrow>
               (case Buffered_Socket_push (interfere E (clock w)) p (store w) of
                  None \<Rightarrow> Hangs w1
                | Some (Inl e) \<Rightarrow> Crashed e w1
                | Some (Inr (rc, p', h')) \<Rightarrow>
                   (let w2 = w1\<lparr>store := h',
                                block := (block w)\<lparr>buffered_sockets_out :=
                                   map_assign nm p' (buffered_sockets_out (block w))\<rparr>\<rparr>
                    in if rc \<noteq> 0 then push_loop n E nm w2
                       else Returned (w2\<lparr>trace := trace w2 @ [Pushed nm]\<rparr>)))))"

text \<open>Line 197, the loop over the output ports.\<close>

fun push_outputs :: "nat \<Rightarrow> 'a env \<Rightarrow> string list \<Rightarrow> 'a worker \<Rightarrow> 'a outcome" where
  "push_outputs n E [] w = Returned w"
| "push_outputs n E (nm # nms) w =
     (case push_loop n E nm w of
        Returned w' \<Rightarrow> push_outputs n E nms w'
      | other \<Rightarrow> other)"

text \<open>
  Lines 188 to 199, the main loop. \<open>tasks[task_id]\<close> indexes a vector without a check.
\<close>

fun main_loop :: "nat \<Rightarrow> 'a env \<Rightarrow> int \<Rightarrow> 'a worker \<Rightarrow> 'a outcome" where
  "main_loop 0 E task_id w = OutOfFuel w"
| "main_loop (Suc n) E task_id w =
     (if isDone E (clock w) then Returned (w\<lparr>clock := Suc (clock w)\<rparr>)
      else
        (let w1 = w\<lparr>clock := Suc (clock w), trace := trace w @ [Iteration]\<rparr>
         in case pop_inputs n E (map fst (buffered_sockets_in (block w1))) w1 of
              Returned w2 \<Rightarrow>
                if isDone E (clock w2) then Returned (w2\<lparr>clock := Suc (clock w2)\<rparr>)
                else
                  (let w3 = w2\<lparr>clock := Suc (clock w2)\<rparr>
                   in if \<not> (0 \<le> task_id \<and> nat task_id < length (tasks (block w3)))
                      then Crashed IndexOutOfRange w3
                      else
                        (let w4 = w3\<lparr>block := exec_task E (block w3),
                                     trace := trace w3 @ [Exec]\<rparr>
                         in case push_outputs n E (map fst (buffered_sockets_out (block w4))) w4 of
                              Returned w5 \<Rightarrow> main_loop n E task_id w5
                            | other \<Rightarrow> other))
            | other \<Rightarrow> other))"

text \<open>Lines 201 and 202: \<open>stop()\<close> on every output port, then on every input port.\<close>

fun stop_ports :: "(string \<times> 'a Buffered_Socket) list \<Rightarrow> 'a heap \<Rightarrow> error + 'a heap" where
  "stop_ports [] h = Inr h"
| "stop_ports ((nm, p) # ps) h =
     (case Buffered_Socket_stop p h of Inl e \<Rightarrow> Inl e | Inr h' \<Rightarrow> stop_ports ps h')"

text \<open>\<open>Block::execute_task\<close>, lines 185 to 203.\<close>

definition execute_task :: "nat \<Rightarrow> 'a env \<Rightarrow> int \<Rightarrow> 'a worker \<Rightarrow> 'a outcome" where
  "execute_task n E task_id w =
     (case main_loop n E task_id w of
        Returned w' \<Rightarrow>
          (case stop_ports (buffered_sockets_out (block w')) (store w') of
             Inl e \<Rightarrow> Crashed e w'
           | Inr h1 \<Rightarrow>
              (case stop_ports (buffered_sockets_in (block w')) h1 of
                 Inl e \<Rightarrow> Crashed e (w'\<lparr>store := h1\<rparr>)
               | Inr h2 \<Rightarrow> Returned (w'\<lparr>store := h2\<rparr>)))
      | other \<Rightarrow> other)"

text \<open>
  What a trace must satisfy: a monitor reads the events and keeps the names of the ports
  popped since the body of the main loop was last entered and whether the flag has been
  seen set in a polling loop. An execution of the task is in order when every input port
  has been popped in the current iteration and the flag has not been seen set; a new
  iteration is in order when the flag has not been seen set.
\<close>

record monitor =
  popped_now :: "string list"
  stop_seen :: bool
  in_order :: bool

fun monitor_step :: "string list \<Rightarrow> monitor \<Rightarrow> event \<Rightarrow> monitor" where
  "monitor_step nms m Iteration = m\<lparr>popped_now := [], in_order := in_order m \<and> \<not> stop_seen m\<rparr>"
| "monitor_step nms m Stop_seen = m\<lparr>stop_seen := True\<rparr>"
| "monitor_step nms m (Popped nm) = m\<lparr>popped_now := nm # popped_now m\<rparr>"
| "monitor_step nms m Exec =
     m\<lparr>in_order := in_order m \<and> \<not> stop_seen m \<and> set nms \<subseteq> set (popped_now m)\<rparr>"
| "monitor_step nms m (Pushed nm) = m"

definition trace_in_order :: "string list \<Rightarrow> event list \<Rightarrow> bool" where
  "trace_in_order nms tr =
     in_order (foldl (monitor_step nms) \<lparr>popped_now = [], stop_seen = False, in_order = True\<rparr> tr)"

section \<open>Examples\<close>

text \<open>
  The tasks that \<open>main.cpp\<close> wraps in blocks (the task \<open>generate\<close> of the source and the
  task \<open>encode\<close> of the encoder, with \<open>K = 16\<close> and \<open>N = 32\<close>) and the task \<open>modulate\<close>
  of the modem it declares, whose output is of another scalar kind.
\<close>

definition source_generate :: Task where
  "source_generate =
     \<lparr>tsk_name = ''generate'',
      sockets = [(\<lparr>sck_name = ''U_K'', datatype_string = ''int32'', n_elmts = 16, dataptr = None\<rparr>, OUT)],
      autoalloc = False, autoexec = False, fast = False\<rparr>"

definition encoder_encode :: Task where
  "encoder_encode =
     \<lparr>tsk_name = ''encode'',
      sockets = [(\<lparr>sck_name = ''U_K'', datatype_string = ''int32'', n_elmts = 16, dataptr = None\<rparr>, IN),
                 (\<lparr>sck_name = ''X_N'', datatype_string = ''int32'', n_elmts = 32, dataptr = None\<rparr>, OUT)],
      autoalloc = False, autoexec = False, fast = False\<rparr>"

definition modem_modulate :: Task where
  "modem_modulate =
     \<lparr>tsk_name = ''modulate'',
      sockets = [(\<lparr>sck_name = ''X_N1'', datatype_string = ''int32'', n_elmts = 32, dataptr = None\<rparr>, IN),
                 (\<lparr>sck_name = ''X_N2'', datatype_string = ''float32'', n_elmts = 32, dataptr = None\<rparr>, OUT)],
      autoalloc = False, autoexec = False, fast = False\<rparr>"

text \<open>
  A small store with two buffers of two slots, the first holding two records and the
  second one record, an input port bound to the first buffer, and an output port that owns
  both.
\<close>

definition ex_full_ring :: "int Circular_Buffer" where
  "ex_full_ring =
     \<lparr>slots = [[1, 2], [3, 4]], write_cursor = 0, read_cursor = 0, occupied = 2, stopped = False\<rparr>"

definition ex_half_ring :: "int Circular_Buffer" where
  "ex_half_ring =
     \<lparr>slots = [[0, 0], [7, 8]], write_cursor = 0, read_cursor = 1, occupied = 1, stopped = False\<rparr>"

definition ex_empty_ring :: "int Circular_Buffer" where
  "ex_empty_ring =
     \<lparr>slots = [[0, 0], [0, 0]], write_cursor = 0, read_cursor = 0, occupied = 0, stopped = False\<rparr>"

definition ex_in_port :: "int Buffered_Socket" where
  "ex_in_port =
     \<lparr>socket = \<lparr>sck_name = ''U_K'', datatype_string = ''int32'', n_elmts = 2, dataptr = Some 0\<rparr>,
      socket_type = IN, buffer_size = 2, socket_data = [[0, 0]], buffer = [0],
      pop_buffer_idx = 0\<rparr>"

definition ex_out_port :: "int Buffered_Socket" where
  "ex_out_port =
     \<lparr>socket = \<lparr>sck_name = ''X_N'', datatype_string = ''int32'', n_elmts = 2, dataptr = Some 0\<rparr>,
      socket_type = OUT, buffer_size = 2, socket_data = [[5, 6], [0, 0]], buffer = [0, 1],
      pop_buffer_idx = 0\<rparr>"



text \<open>
  A task with an output socket whose datatype string is none of the six.
\<close>

definition custom_task :: Task where
  "custom_task =
     \<lparr>tsk_name = ''custom'',
      sockets = [(\<lparr>sck_name = ''Y_N'', datatype_string = ''uint8'', n_elmts = 4, dataptr = None\<rparr>, OUT)],
      autoalloc = False, autoexec = False, fast = False\<rparr>"

text \<open>
  A block with one input port and one output port over the small store, a worker on it,
  and the worker of a source block of capacity 1. In the environment \<open>quiet_env T\<close> the
  stop flag is unset at the reads before the \<open>T\<close>-th and set from then on, no other
  thread touches the buffers, and the task leaves the output records as they are.
\<close>

definition ex_block :: "int Block" where
  "ex_block =
     \<lparr>name = ''encode'', n_threads = 1, tasks = [encoder_encode], block_buffer_size = 2,
      buffered_sockets_in = [(''U_K'', ex_in_port)],
      buffered_sockets_out = [(''X_N'', ex_out_port\<lparr>socket_data := [[5, 6]], buffer := [1]\<rparr>)]\<rparr>"

definition ex_worker :: "int worker" where
  "ex_worker = \<lparr>clock = 0, block = ex_block, store = [ex_full_ring, ex_half_ring], trace = []\<rparr>"

definition quiet_env :: "nat \<Rightarrow> int env" where
  "quiet_env T = \<lparr>isDone = (\<lambda>t. T \<le> t), interfere = (\<lambda>t. quiet), task_exec = (\<lambda>ins nm r. r)\<rparr>"

definition source_worker :: "int worker" where
  "source_worker =
     (case Block_new source_generate 1 1 [] of
        Inl e \<Rightarrow> \<lparr>clock = 0, block = ex_block, store = [], trace = []\<rparr>
      | Inr (bl_source, h) \<Rightarrow> \<lparr>clock = 0, block = bl_source, store = h, trace = []\<rparr>)"

section \<open>Predicates of the proofs\<close>

text \<open>
  A stop flag that stays set once it is set, and the two kinds of event lists that the
  polling loops and the pushing loops add to the trace.
\<close>

definition sticky :: "'a env \<Rightarrow> bool" where
  "sticky E \<longleftrightarrow> (\<forall>s t. s \<le> t \<longrightarrow> isDone E s \<longrightarrow> isDone E t)"

definition polling_events :: "event list \<Rightarrow> bool" where
  "polling_events evs \<longleftrightarrow> (\<forall>e\<in>set evs. e = Stop_seen \<or> (\<exists>nm. e = Popped nm))"

definition pushing_events :: "event list \<Rightarrow> bool" where
  "pushing_events evs \<longleftrightarrow> (\<forall>e\<in>set evs. \<exists>nm. e = Pushed nm)"


text \<open>
  The sockets for which the constructor of a block constructs a circular buffer: those
  that are not inputs and whose datatype is one of the six.
\<close>

definition ring_sockets :: "(Socket \<times> Socket_type) list \<Rightarrow> (Socket \<times> Socket_type) list" where
  "ring_sockets ss = filter (\<lambda>(s, ty). ty \<noteq> IN \<and> has_port_branch (datatype_string s)) ss"

text \<open>
  What the construction of a block leaves besides the block's own fields: the error, or
  the two maps of ports and the store.
\<close>

definition ports_and_store ::
  "error + ('a Block \<times> 'a heap) \<Rightarrow>
     error + ((string \<times> 'a Buffered_Socket) list \<times> (string \<times> 'a Buffered_Socket) list \<times> 'a heap)" where
  "ports_and_store r =
     (case r of
        Inl e \<Rightarrow> Inl e
      | Inr (blk, h) \<Rightarrow> Inr (buffered_sockets_in blk, buffered_sockets_out blk, h))"

section \<open>Fan-out\<close>

text \<open>
  One producer port and two consumer ports, each consumer on a buffer of its own. A
  schedule lists whose turn it is: the producer's task writes a record into the staging
  record its socket points to and the port is pushed, or one of the consumers is popped.
  The run stops with \<open>None\<close> when a push does not return. The records pushed and the
  records each consumer has popped are collected, oldest first.
\<close>

datatype 'a fan_op = Produce "'a list" | Consume_A | Consume_B

record 'a fan_out =
  producer :: "'a Buffered_Socket"
  consumer_A :: "'a Buffered_Socket"
  consumer_B :: "'a Buffered_Socket"
  buffers :: "'a heap"
  produced :: "'a list list"
  received_A :: "'a list list"
  received_B :: "'a list list"

fun fan_step :: "'a fan_out \<Rightarrow> 'a fan_op \<Rightarrow> (error + 'a fan_out) option" where
  "fan_step s (Produce v) =
     (case Buffered_Socket_push quiet (write_staged v (producer s)) (buffers s) of
        None \<Rightarrow> None
      | Some (Inl e) \<Rightarrow> Some (Inl e)
      | Some (Inr (rc, p', h')) \<Rightarrow>
          Some (Inr (s\<lparr>producer := p', buffers := h', produced := produced s @ [v]\<rparr>)))"
| "fan_step s Consume_A =
     (case Buffered_Socket_pop (consumer_A s) (buffers s) of
        Inl e \<Rightarrow> Some (Inl e)
      | Inr (rc, c', h') \<Rightarrow>
          Some (Inr (if rc = 1 then s\<lparr>consumer_A := c', buffers := h'\<rparr>
                     else s\<lparr>consumer_A := c', buffers := h',
                            received_A := received_A s @ [staged c']\<rparr>)))"
| "fan_step s Consume_B =
     (case Buffered_Socket_pop (consumer_B s) (buffers s) of
        Inl e \<Rightarrow> Some (Inl e)
      | Inr (rc, c', h') \<Rightarrow>
          Some (Inr (if rc = 1 then s\<lparr>consumer_B := c', buffers := h'\<rparr>
                     else s\<lparr>consumer_B := c', buffers := h',
                            received_B := received_B s @ [staged c']\<rparr>)))"

fun fan_run :: "'a fan_out \<Rightarrow> 'a fan_op list \<Rightarrow> (error + 'a fan_out) option" where
  "fan_run s [] = Some (Inr s)"
| "fan_run s (x # xs) =
     (case fan_step s x of
        None \<Rightarrow> None
      | Some (Inl e) \<Rightarrow> Some (Inl e)
      | Some (Inr s') \<Rightarrow> fan_run s' xs)"

text \<open>
  The invariant of a run: the shape of the three ports, the two distinct buffers, and what
  each consumer has received followed by what is still queued for it.
\<close>

definition fan_inv :: "nat \<Rightarrow> nat \<Rightarrow> nat \<Rightarrow> 'a list list \<Rightarrow> 'a fan_out \<Rightarrow> bool" where
  "fan_inv n a a1 c0 s \<longleftrightarrow>
     buffer (producer s) = [a, a1] \<and>
     (\<exists>x y. socket_data (producer s) = [x, y] \<and> length y = n) \<and>
     dataptr (socket (producer s)) = Some 0 \<and>
     buffer (consumer_A s) = [a] \<and> (\<exists>r. socket_data (consumer_A s) = [r]) \<and>
     buffer (consumer_B s) = [a1] \<and> (\<exists>r. socket_data (consumer_B s) = [r]) \<and>
     a \<noteq> a1 \<and> a < length (buffers s) \<and> a1 < length (buffers s) \<and>
     cb_inv (buffers s ! a) \<and> cb_inv (buffers s ! a1) \<and>
     received_A s @ cb_contents (buffers s ! a) = c0 @ produced s \<and>
     received_B s @ cb_contents (buffers s ! a1) = produced s"

definition fan_start ::
  "'a Buffered_Socket \<Rightarrow> 'a Buffered_Socket \<Rightarrow> 'a Buffered_Socket \<Rightarrow> 'a heap \<Rightarrow> 'a fan_out" where
  "fan_start P A B h =
     \<lparr>producer = P, consumer_A = A, consumer_B = B, buffers = h,
      produced = [], received_A = [], received_B = []\<rparr>"

definition ex_producer :: "int Buffered_Socket" where
  "ex_producer =
     \<lparr>socket = \<lparr>sck_name = ''U_K'', datatype_string = ''int32'', n_elmts = 2, dataptr = Some 0\<rparr>,
      socket_type = OUT, buffer_size = 2, socket_data = [[0, 0]], buffer = [0],
      pop_buffer_idx = 0\<rparr>"

definition fan_full :: "nat \<Rightarrow> nat \<Rightarrow> 'a fan_out \<Rightarrow> bool" where
  "fan_full a a1 s \<longleftrightarrow>
     occupied (buffers s ! a) = capacity (buffers s ! a) \<or>
     occupied (buffers s ! a1) = capacity (buffers s ! a1)"


definition ex_schedule :: "int fan_op list" where
  "ex_schedule =
     [Produce [1, 1], Consume_A, Consume_A, Produce [2, 2], Consume_B, Consume_A, Produce [3, 3]]"

section \<open>Properties of the circular buffer\<close>

lemma mod_offsets_distinct:
  fixes r i j c :: nat
  assumes "i < j" "j < c"
  shows "(r + i) mod c \<noteq> (r + j) mod c"
proof
  assume eq: "(r + i) mod c = (r + j) mod c"
  have "(r + i + (j - i)) mod c = (r + i) mod c"
    using eq assms by simp
  then have "(j - i) mod c = 0"
    by (metis add_diff_cancel_left' dvd_eq_mod_eq_0 mod_eq_dvd_iff_nat le_add1)
  moreover have "0 < j - i" "j - i < c" using assms by simp_all
  ultimately show False by simp
qed

lemma cb_inv_new:
  "Circular_Buffer_new c n = Inr b \<Longrightarrow> cb_inv b \<and> cb_contents b = [] \<and> occupied b = 0 \<and> \<not> stopped b"
  by (auto simp: Circular_Buffer_new_def cb_inv_def cb_contents_def capacity_def split: if_splits)

lemma cb_push_full:
  "occupied b = capacity b \<Longrightarrow> Circular_Buffer_push r b = (1, b)"
  by (simp add: Circular_Buffer_push_def)

lemma cb_push_inv:
  "cb_inv b \<Longrightarrow> cb_inv (snd (Circular_Buffer_push r b))"
  by (auto simp: Circular_Buffer_push_def cb_inv_def capacity_def mod_Suc_eq mod_simps)

lemma cb_push_contents:
  assumes "cb_inv b" "occupied b \<noteq> capacity b"
  shows "Circular_Buffer_push r b = (0, snd (Circular_Buffer_push r b))"
    and "cb_contents (snd (Circular_Buffer_push r b)) = cb_contents b @ [r]"
    and "occupied (snd (Circular_Buffer_push r b)) = occupied b + 1"
proof -
  let ?c = "capacity b"
  let ?w = "write_cursor b"
  have w: "?w = (read_cursor b + occupied b) mod ?c" and c: "0 < ?c"
    and occ: "occupied b < ?c"
    using assms by (auto simp: cb_inv_def)
  have wlt: "?w < length (slots b)" using w c by (simp add: capacity_def)
  have old: "(slots b)[?w := r] ! ((read_cursor b + i) mod ?c) = slots b ! ((read_cursor b + i) mod ?c)"
    if "i < occupied b" for i
    using mod_offsets_distinct[OF that occ, of "read_cursor b"] w by simp
  show "Circular_Buffer_push r b = (0, snd (Circular_Buffer_push r b))"
    using assms by (simp add: Circular_Buffer_push_def)
  show "cb_contents (snd (Circular_Buffer_push r b)) = cb_contents b @ [r]"
    using assms(2) old wlt w
    by (simp add: Circular_Buffer_push_def cb_contents_def capacity_def)
  show "occupied (snd (Circular_Buffer_push r b)) = occupied b + 1"
    using assms by (simp add: Circular_Buffer_push_def)
qed

lemma cb_pop_empty:
  "occupied b = 0 \<Longrightarrow> Circular_Buffer_pop b out = (1, b, out)"
  by (simp add: Circular_Buffer_pop_def)

lemma cb_pop_inv:
  assumes "cb_inv b"
  shows "cb_inv (fst (snd (Circular_Buffer_pop b out)))"
proof (cases "occupied b = 0")
  case True
  then show ?thesis using assms by (simp add: Circular_Buffer_pop_def)
next
  case False
  let ?c = "capacity b"
  have c: "0 < ?c" and w: "write_cursor b = (read_cursor b + occupied b) mod ?c"
    and le: "occupied b \<le> ?c"
    using assms by (auto simp: cb_inv_def)
  have "((read_cursor b + 1) mod ?c + (occupied b - 1)) mod ?c
        = (read_cursor b + 1 + (occupied b - 1)) mod ?c"
    by (simp add: mod_simps)
  also have "\<dots> = (read_cursor b + occupied b) mod ?c"
    using False by simp
  finally show ?thesis
    using False c w le
    by (simp add: Circular_Buffer_pop_def cb_inv_def capacity_def)
qed

lemma cb_pop_contents:
  assumes "cb_inv b" "occupied b \<noteq> 0"
  shows "\<exists>b' r. Circular_Buffer_pop b out = (0, b', r) \<and> cb_contents b = r # cb_contents b'
          \<and> occupied b = occupied b' + 1"
proof -
  let ?c = "capacity b"
  have c: "0 < ?c" and rd: "read_cursor b < ?c" using assms by (auto simp: cb_inv_def)
  have "[0..<occupied b] = 0 # map Suc [0..<occupied b - 1]"
    using assms(2) by (metis One_nat_def Suc_pred map_Suc_upt neq0_conv upt_conv_Cons)
  then have "cb_contents b = slots b ! read_cursor b
       # map (\<lambda>i. slots b ! ((read_cursor b + Suc i) mod ?c)) [0..<occupied b - 1]"
    using rd by (simp add: cb_contents_def comp_def)
  moreover have "((read_cursor b + 1) mod ?c + i) mod ?c = (read_cursor b + Suc i) mod ?c" for i
    by (simp add: mod_simps)
  ultimately show ?thesis
    using assms(2) by (simp add: Circular_Buffer_pop_def cb_contents_def capacity_def)
qed

section \<open>The retry loop of push\<close>

lemma retry_push_quiet_full_None:
  assumes "a < length h" "occupied (h ! a) = capacity (h ! a)"
  shows "retry_push quiet k r a h = None"
proof -
  have "others' = quiet \<longrightarrow> \<not> (a' < length h' \<and> occupied (h' ! a') = capacity (h' ! a'))"
    if "retry_push others' k' r' a' h' = Some y" for others' k' r' a' h' y
    by (rule retry_push.raw_induct[where P = "\<lambda>others' k' r' a' h' y.
          others' = quiet \<longrightarrow> \<not> (a' < length h' \<and> occupied (h' ! a') = capacity (h' ! a'))", OF _ that])
       (auto simp: Circular_Buffer_push_def split: if_splits)
  note none = this
  show ?thesis
  proof (cases "retry_push quiet k r a h")
    case None
    then show ?thesis .
  next
    case (Some y)
    from none[OF Some] assms show ?thesis by simp
  qed
qed

lemma retry_push_quiet:
  "retry_push quiet k r a h =
     (if \<not> a < length h then Some (Inl InvalidPointer)
      else if occupied (h ! a) = capacity (h ! a) then None
      else Some (Inr (Suc k, h[a := snd (Circular_Buffer_push r (h ! a))])))"
proof (cases "a < length h \<and> occupied (h ! a) = capacity (h ! a)")
  case True
  then show ?thesis by (simp add: retry_push_quiet_full_None)
next
  case False
  then show ?thesis
    by (subst retry_push.simps) (auto simp: Circular_Buffer_push_def)
qed

section \<open>First in, first out\<close>

lemma rb_step_inv: "rb_inv s \<Longrightarrow> rb_inv (rb_step s x)"
proof (cases x)
  case (Push r)
  assume inv: "rb_inv s"
  show ?thesis
  proof (cases "occupied (buf s) = capacity (buf s)")
    case True
    then show ?thesis using inv Push by (simp add: cb_push_full)
  next
    case False
    from inv have ci: "cb_inv (buf s)" by (simp add: rb_inv_def)
    obtain b' where b': "Circular_Buffer_push r (buf s) = (0, b')"
      using cb_push_contents(1)[OF ci False] by blast
    then have "b' = snd (Circular_Buffer_push r (buf s))" by simp
    then have "cb_inv b'" "cb_contents b' = cb_contents (buf s) @ [r]"
      using cb_push_inv[OF ci, of r] cb_push_contents(2)[OF ci False, of r] by simp_all
    then show ?thesis using inv Push b' by (simp add: rb_inv_def)
  qed
next
  case Pop
  assume inv: "rb_inv s"
  show ?thesis
  proof (cases "occupied (buf s) = 0")
    case True
    then show ?thesis using inv Pop by (simp add: cb_pop_empty)
  next
    case False
    from inv have ci: "cb_inv (buf s)" by (simp add: rb_inv_def)
    obtain b' r where b': "Circular_Buffer_pop (buf s) [] = (0, b', r)"
      and c: "cb_contents (buf s) = r # cb_contents b'"
      using cb_pop_contents[OF ci False, of "[]"] by blast
    have "cb_inv b'" using cb_pop_inv[OF ci, of "[]"] b' by simp
    then show ?thesis using inv Pop b' c by (simp add: rb_inv_def)
  qed
qed

lemma rb_foldl_inv: "rb_inv s \<Longrightarrow> rb_inv (foldl rb_step s xs)"
  by (induction xs arbitrary: s) (simp_all add: rb_step_inv)

lemma rb_drain:
  "rb_inv s \<Longrightarrow> occupied (buf s) = k \<Longrightarrow>
     popped (foldl rb_step s (replicate k Pop)) = pushed s \<and>
     pushed (foldl rb_step s (replicate k Pop)) = pushed s"
proof (induction k arbitrary: s)
  case 0
  then show ?case by (simp add: rb_inv_def cb_contents_def)
next
  case (Suc k)
  from Suc.prems have ci: "cb_inv (buf s)" and ne: "occupied (buf s) \<noteq> 0"
    by (simp_all add: rb_inv_def)
  obtain b' r where b': "Circular_Buffer_pop (buf s) [] = (0, b', r)"
    and occ: "occupied (buf s) = occupied b' + 1"
    using cb_pop_contents[OF ci ne, of "[]"] by blast
  let ?s = "rb_step s Pop"
  have inv': "rb_inv ?s" using Suc.prems(1) by (rule rb_step_inv)
  have "occupied (buf ?s) = k" "pushed ?s = pushed s"
    using b' occ Suc.prems(2) by simp_all
  with Suc.IH[OF inv'] show ?case by simp
qed

lemma rb_length:
  "rb_inv s \<Longrightarrow> length (pushed s) = length (popped s) + occupied (buf s)"
  by (simp add: rb_inv_def cb_contents_def)

text \<open>
  Claim C1. A fresh buffer of any capacity is driven by any schedule of push and pop
  attempts of one producer and one consumer (no reset, no stop). The records handed out
  are, in order, an initial segment of the records accepted; the records accepted and not
  yet handed out are as many as the occupied slots; and popping that many times more hands
  out exactly the records accepted, in the order of their acceptance, while accepting
  nothing new. So no record is lost, none is handed out twice, and the order is kept.
\<close>

theorem ring_buffer_fifo:
  assumes "Circular_Buffer_new cap n_elt = Inr b0"
  shows "take (length (popped (rb_run ops b0))) (pushed (rb_run ops b0)) = popped (rb_run ops b0)
       \<and> length (pushed (rb_run ops b0)) = length (popped (rb_run ops b0)) + occupied (buf (rb_run ops b0))
       \<and> popped (rb_run (ops @ replicate (occupied (buf (rb_run ops b0))) Pop) b0) = pushed (rb_run ops b0)
       \<and> pushed (rb_run (ops @ replicate (occupied (buf (rb_run ops b0))) Pop) b0) = pushed (rb_run ops b0)"
proof -
  have "rb_inv \<lparr>pushed = [], popped = [], buf = b0\<rparr>"
    using cb_inv_new[OF assms] by (simp add: rb_inv_def)
  then have inv: "rb_inv (rb_run ops b0)"
    unfolding rb_run_def by (rule rb_foldl_inv)
  have pre: "take (length (popped (rb_run ops b0))) (pushed (rb_run ops b0)) = popped (rb_run ops b0)"
    using inv by (simp add: rb_inv_def)
  have dr: "rb_run (ops @ replicate k Pop) b0 = foldl rb_step (rb_run ops b0) (replicate k Pop)" for k
    by (simp add: rb_run_def)
  show ?thesis
    using pre rb_length[OF inv] rb_drain[OF inv refl] by (simp add: dr)
qed

theorem ring_buffer_fifo_witness:
  "Circular_Buffer_new 2 1 =
     Inr (\<lparr>slots = [[0], [0]], write_cursor = 0, read_cursor = 0, occupied = 0, stopped = False\<rparr>
          :: int Circular_Buffer)
   \<and> pushed (rb_run [Push [1], Push [2], Push [3], Pop, Push [4], Pop]
        (\<lparr>slots = [[0], [0]], write_cursor = 0, read_cursor = 0, occupied = 0, stopped = False\<rparr>
          :: int Circular_Buffer)) = [[1], [2], [4]]
   \<and> popped (rb_run [Push [1], Push [2], Push [3], Pop, Push [4], Pop]
        (\<lparr>slots = [[0], [0]], write_cursor = 0, read_cursor = 0, occupied = 0, stopped = False\<rparr>
          :: int Circular_Buffer)) = [[1], [2]]
   \<and> popped (rb_run ([Push [1], Push [2], Push [3], Pop, Push [4], Pop] @ replicate 1 Pop)
        (\<lparr>slots = [[0], [0]], write_cursor = 0, read_cursor = 0, occupied = 0, stopped = False\<rparr>
          :: int Circular_Buffer)) = [[1], [2], [4]]"
proof -
  let ?b = "\<lparr>slots = [[0], [0]], write_cursor = 0, read_cursor = 0, occupied = 0, stopped = False\<rparr>
          :: int Circular_Buffer"
  let ?ops = "[Push [1], Push [2], Push [3], Pop, Push [4], Pop] :: int rb_op list"
  have h: "Circular_Buffer_new 2 1 = Inr ?b"
    by (simp add: Circular_Buffer_new_def numeral_2_eq_2)
  have run: "rb_run ?ops ?b = \<lparr>pushed = [[1], [2], [4]], popped = [[1], [2]],
      buf = \<lparr>slots = [[4], [2]], write_cursor = 1, read_cursor = 0, occupied = 1, stopped = False\<rparr>\<rparr>"
    by (simp add: rb_run_def Circular_Buffer_push_def Circular_Buffer_pop_def capacity_def)
  from ring_buffer_fifo[OF h, of ?ops] h run show ?thesis by simp
qed

section \<open>The port operations\<close>

lemma cb_contents_empty_iff: "cb_contents b = [] \<longleftrightarrow> occupied b = 0"
  by (simp add: cb_contents_def)


lemma Buffered_Socket_pop_spec:
  assumes "buffer this = a # as" and "socket_data this = r0 # rs"
    and "a < length h" and "cb_inv (h ! a)"
  shows "(cb_contents (h ! a) = [] \<longrightarrow> Buffered_Socket_pop this h = Inr (1, this, h))
       \<and> (cb_contents (h ! a) \<noteq> [] \<longrightarrow>
            (\<exists>b'. Buffered_Socket_pop this h =
                    Inr (0, this\<lparr>socket_data := hd (cb_contents (h ! a)) # rs,
                                  socket := (socket this)\<lparr>dataptr := Some 0\<rparr>\<rparr>,
                         h[a := b'])
                  \<and> cb_contents b' = tl (cb_contents (h ! a)) \<and> cb_inv b'))"
proof (intro conjI impI)
  assume "cb_contents (h ! a) = []"
  then have "occupied (h ! a) = 0" by (simp add: cb_contents_empty_iff)
  then have "Circular_Buffer_pop (h ! a) r0 = (1, h ! a, r0)" by (rule cb_pop_empty)
  moreover have "this\<lparr>socket_data := r0 # rs\<rparr> = this" using assms(2) by simp
  ultimately show "Buffered_Socket_pop this h = Inr (1, this, h)"
    using assms(1-3) by (simp add: Buffered_Socket_pop_def)
next
  assume "cb_contents (h ! a) \<noteq> []"
  then have ne: "occupied (h ! a) \<noteq> 0" by (simp add: cb_contents_empty_iff)
  obtain b' r where p: "Circular_Buffer_pop (h ! a) r0 = (0, b', r)"
    and c: "cb_contents (h ! a) = r # cb_contents b'"
    using cb_pop_contents[OF assms(4) ne, of r0] by blast
  have "cb_inv b'" using cb_pop_inv[OF assms(4), of r0] p by simp
  moreover have "Buffered_Socket_pop this h =
      Inr (0, this\<lparr>socket_data := hd (cb_contents (h ! a)) # rs,
                    socket := (socket this)\<lparr>dataptr := Some 0\<rparr>\<rparr>, h[a := b'])"
    using assms(1-3) p c by (simp add: Buffered_Socket_pop_def)
  ultimately show "\<exists>b'. Buffered_Socket_pop this h =
                    Inr (0, this\<lparr>socket_data := hd (cb_contents (h ! a)) # rs,
                                  socket := (socket this)\<lparr>dataptr := Some 0\<rparr>\<rparr>,
                         h[a := b'])
                  \<and> cb_contents b' = tl (cb_contents (h ! a)) \<and> cb_inv b'"
    using c by auto
qed


text \<open>
  Claim C6. An input port is bound to a buffer (the first of its buffers, a valid buffer of
  the store) and has its staging record. If nothing is queued, \<open>pop\<close> returns 1, the
  value on which the callers retry, and changes nothing. Otherwise it returns 0, the
  staging record holds the oldest queued record, that record has left the queue, and the
  socket of the task points to staging record 0.
\<close>

theorem Buffered_Socket_pop_oldest:
  assumes "buffer this = a # as" and "socket_data this = r0 # rs"
    and "a < length h" and "cb_inv (h ! a)"
  shows "(cb_contents (h ! a) = [] \<longrightarrow> Buffered_Socket_pop this h = Inr (1, this, h))
       \<and> (cb_contents (h ! a) \<noteq> [] \<longrightarrow>
            (\<exists>b'. Buffered_Socket_pop this h =
                    Inr (0, this\<lparr>socket_data := hd (cb_contents (h ! a)) # rs,
                                  socket := (socket this)\<lparr>dataptr := Some 0\<rparr>\<rparr>,
                         h[a := b'])
                  \<and> cb_contents b' = tl (cb_contents (h ! a)) \<and> cb_inv b'))"
  using assms by (rule Buffered_Socket_pop_spec)

theorem Buffered_Socket_pop_oldest_witness:
  "buffer ex_in_port = 0 # [] \<and> socket_data ex_in_port = [0, 0] # [] \<and>
   0 < length [ex_full_ring, ex_half_ring] \<and> cb_inv ([ex_full_ring, ex_half_ring] ! 0) \<and>
   cb_contents ([ex_full_ring, ex_half_ring] ! 0) = [[1, 2], [3, 4]] \<and>
   (\<exists>b'. Buffered_Socket_pop ex_in_port [ex_full_ring, ex_half_ring] =
           Inr (0, ex_in_port\<lparr>socket_data := [1, 2] # [],
                              socket := (socket ex_in_port)\<lparr>dataptr := Some 0\<rparr>\<rparr>,
                [ex_full_ring, ex_half_ring][0 := b'])
         \<and> cb_contents b' = [[3, 4]] \<and> cb_inv b')"
proof -
  let ?h = "[ex_full_ring, ex_half_ring]"
  have h1: "buffer ex_in_port = 0 # []" and h2: "socket_data ex_in_port = [0, 0] # []"
    by (simp_all add: ex_in_port_def)
  have h3: "0 < length ?h" by simp
  have h4: "cb_inv (?h ! 0)" by (simp add: cb_inv_def capacity_def ex_full_ring_def)
  have c: "cb_contents (?h ! 0) = [[1, 2], [3, 4]]"
    by (simp add: cb_contents_def capacity_def ex_full_ring_def upt_rec)
  from Buffered_Socket_pop_oldest[OF h1 h2 h3 h4] c h1 h2 h3 h4 show ?thesis by simp
qed

lemma copy_elts_full:
  "j + k = length src \<Longrightarrow> length dst = length src \<Longrightarrow>
     copy_elts k src dst j = Inr (take j dst @ drop j src)"
proof (induction k arbitrary: dst j)
  case 0
  then show ?case by simp
next
  case (Suc k)
  then have j: "j < length dst" "j < length src" by simp_all
  let ?d = "dst[j := src ! j]"
  have "copy_elts k src ?d (Suc j) = Inr (take (Suc j) ?d @ drop (Suc j) src)"
    using Suc.prems by (intro Suc.IH) simp_all
  moreover have "take (Suc j) ?d = take j dst @ [src ! j]"
    using j by (simp add: take_Suc_conv_app_nth)
  moreover have "drop j src = src ! j # drop (Suc j) src"
    using j by (simp add: Cons_nth_drop_Suc)
  ultimately show ?case using j by simp
qed

lemma copy_records_same_width:
  "\<forall>r\<in>set rs. length r = length r0 \<Longrightarrow> copy_records r0 rs = Inr (map (\<lambda>_. r0) rs)"
  by (induction rs) (simp_all add: copy_elts_full)

lemma copy_staging_same_width:
  "\<forall>r\<in>set rs. length r = length r0 \<Longrightarrow>
     copy_staging (r0 # rs) = Inr (replicate (length (r0 # rs)) r0)"
  by (simp add: copy_staging_def copy_records_same_width map_replicate_const)

lemma push_buffers_room:
  assumes "distinct as"
    and "\<forall>a\<in>set as. a < length h \<and> cb_inv (h ! a) \<and> occupied (h ! a) \<noteq> capacity (h ! a)"
    and "i + length as \<le> length sd"
    and "\<forall>j. i \<le> j \<and> j < i + length as \<longrightarrow> sd ! j = r0"
  shows "\<exists>h'. push_buffers quiet k as i sd h = Some (Inr (k + length as, h')) \<and> length h' = length h
           \<and> (\<forall>a<length h. (a \<in> set as \<longrightarrow> cb_contents (h' ! a) = cb_contents (h ! a) @ [r0]
                                              \<and> cb_inv (h' ! a))
                          \<and> (a \<notin> set as \<longrightarrow> h' ! a = h ! a))"
  using assms
proof (induction as arbitrary: i h k)
  case Nil
  then show ?case by simp
next
  case (Cons a as)
  let ?b = "snd (Circular_Buffer_push r0 (h ! a))"
  let ?h = "h[a := ?b]"
  from Cons.prems have a: "a < length h" "cb_inv (h ! a)" "occupied (h ! a) \<noteq> capacity (h ! a)"
    and na: "a \<notin> set as" and d: "distinct as" by simp_all
  have i: "i < length sd" "sd ! i = r0" using Cons.prems(3,4) by simp_all
  have step: "retry_push quiet k (sd ! i) a h = Some (Inr (Suc k, ?h))"
    using a i by (simp add: retry_push_quiet)
  have b: "cb_contents ?b = cb_contents (h ! a) @ [r0]" "cb_inv ?b"
    using cb_push_contents(2)[OF a(2,3)] cb_push_inv[OF a(2)] by simp_all
  have rest: "\<forall>x\<in>set as. x < length ?h \<and> cb_inv (?h ! x) \<and> occupied (?h ! x) \<noteq> capacity (?h ! x)"
    using Cons.prems(2) na by (auto simp: nth_list_update)
  have "\<exists>h'. push_buffers quiet (Suc k) as (Suc i) sd ?h = Some (Inr (Suc k + length as, h'))
           \<and> length h' = length ?h
           \<and> (\<forall>x<length ?h. (x \<in> set as \<longrightarrow> cb_contents (h' ! x) = cb_contents (?h ! x) @ [r0]
                                              \<and> cb_inv (h' ! x))
                          \<and> (x \<notin> set as \<longrightarrow> h' ! x = ?h ! x))"
    using Cons.prems(3,4) by (intro Cons.IH[OF d rest]) auto
  then obtain h' where h': "push_buffers quiet (Suc k) as (Suc i) sd ?h = Some (Inr (Suc k + length as, h'))"
      "length h' = length h"
    and frame: "\<forall>x<length h. (x \<in> set as \<longrightarrow> cb_contents (h' ! x) = cb_contents (?h ! x) @ [r0]
                                              \<and> cb_inv (h' ! x))
                          \<and> (x \<notin> set as \<longrightarrow> h' ! x = ?h ! x)"
    by auto
  have "push_buffers quiet k (a # as) i sd h = Some (Inr (k + length (a # as), h'))"
    using i step h' by simp
  moreover have "\<forall>x<length h. (x \<in> set (a # as) \<longrightarrow> cb_contents (h' ! x) = cb_contents (h ! x) @ [r0]
                                              \<and> cb_inv (h' ! x))
                          \<and> (x \<notin> set (a # as) \<longrightarrow> h' ! x = h ! x)"
    using frame na a(1) b by (auto simp: nth_list_update)
  ultimately show ?case using h'(2) by blast
qed

lemma push_buffers_blocked:
  assumes "distinct as"
    and "\<forall>a\<in>set as. a < length h"
    and "i + length as \<le> length sd"
    and "\<exists>a\<in>set as. occupied (h ! a) = capacity (h ! a)"
  shows "push_buffers quiet k as i sd h = None"
  using assms
proof (induction as arbitrary: i h k)
  case Nil
  then show ?case by simp
next
  case (Cons a as)
  have i: "i < length sd" and a: "a < length h" using Cons.prems by simp_all
  show ?case
  proof (cases "occupied (h ! a) = capacity (h ! a)")
    case True
    then show ?thesis using i a by (simp add: retry_push_quiet)
  next
    case False
    let ?h = "h[a := snd (Circular_Buffer_push (sd ! i) (h ! a))]"
    from Cons.prems have na: "a \<notin> set as" and d: "distinct as" by simp_all
    from Cons.prems(4) False obtain x where x: "x \<in> set as" "occupied (h ! x) = capacity (h ! x)"
      by auto
    then have "x \<noteq> a" using na by auto
    then have hx: "?h ! x = h ! x" by simp
    have "occupied (?h ! x) = capacity (?h ! x)" unfolding hx by (rule x(2))
    then have ex: "\<exists>x\<in>set as. occupied (?h ! x) = capacity (?h ! x)"
      using x(1) by blast
    have valid: "\<forall>x\<in>set as. x < length ?h" using Cons.prems(2) by simp
    have len: "Suc i + length as \<le> length sd" using Cons.prems(3) by simp
    have "push_buffers quiet (Suc k) as (Suc i) sd ?h = None"
      by (rule Cons.IH[OF d valid len ex])
    then show ?thesis using i a False by (simp add: retry_push_quiet)
  qed
qed

text \<open>
  \<open>push()\<close> when no other thread touches the store: it returns exactly when every owned
  buffer has a free slot.
\<close>

lemma Buffered_Socket_push_quiet:
  assumes "socket_data this = r0 # rs"
    and "\<forall>r\<in>set rs. length r = length r0"
    and "length (buffer this) = length (socket_data this)"
    and "distinct (buffer this)"
    and "\<forall>a\<in>set (buffer this). a < length h \<and> cb_inv (h ! a)"
  shows "((\<forall>a\<in>set (buffer this). occupied (h ! a) \<noteq> capacity (h ! a)) \<longrightarrow>
           (\<exists>h'. Buffered_Socket_push quiet this h =
                    Some (Inr (0, this\<lparr>socket_data := replicate (length (socket_data this)) r0,
                                        socket := (socket this)\<lparr>dataptr := Some 0\<rparr>\<rparr>, h'))
                \<and> length h' = length h
                \<and> (\<forall>a<length h.
                      (a \<in> set (buffer this) \<longrightarrow> cb_contents (h' ! a) = cb_contents (h ! a) @ [r0]
                                                  \<and> cb_inv (h' ! a))
                    \<and> (a \<notin> set (buffer this) \<longrightarrow> h' ! a = h ! a))))
       \<and> ((\<exists>a\<in>set (buffer this). occupied (h ! a) = capacity (h ! a)) \<longrightarrow>
            Buffered_Socket_push quiet this h = None)"
proof -
  let ?sd = "replicate (length (socket_data this)) r0"
  have cp: "copy_staging (socket_data this) = Inr ?sd"
    using copy_staging_same_width[OF assms(2)] assms(1) by simp
  have len: "0 + length (buffer this) \<le> length ?sd" using assms(3) by simp
  have all: "\<forall>j. 0 \<le> j \<and> j < 0 + length (buffer this) \<longrightarrow> ?sd ! j = r0"
    using assms(3) by simp
  have ne: "?sd \<noteq> []" using assms(1) by simp
  show ?thesis
  proof (intro conjI impI)
    assume room: "\<forall>a\<in>set (buffer this). occupied (h ! a) \<noteq> capacity (h ! a)"
    have "\<forall>a\<in>set (buffer this). a < length h \<and> cb_inv (h ! a) \<and> occupied (h ! a) \<noteq> capacity (h ! a)"
      using assms(5) room by simp
    from push_buffers_room[OF assms(4) this len all, of 0]
    obtain h' where h': "push_buffers quiet 0 (buffer this) 0 ?sd h
                           = Some (Inr (0 + length (buffer this), h'))" "length h' = length h"
      and fr: "\<forall>a<length h. (a \<in> set (buffer this) \<longrightarrow> cb_contents (h' ! a) = cb_contents (h ! a) @ [r0]
                                              \<and> cb_inv (h' ! a))
                          \<and> (a \<notin> set (buffer this) \<longrightarrow> h' ! a = h ! a)"
      by blast
    have "Buffered_Socket_push quiet this h =
            Some (Inr (0, this\<lparr>socket_data := ?sd,
                                socket := (socket this)\<lparr>dataptr := Some 0\<rparr>\<rparr>, h'))"
      using cp h'(1) ne by (simp add: Buffered_Socket_push_def)
    then show "\<exists>h'. Buffered_Socket_push quiet this h =
                    Some (Inr (0, this\<lparr>socket_data := ?sd,
                                        socket := (socket this)\<lparr>dataptr := Some 0\<rparr>\<rparr>, h'))
                \<and> length h' = length h
                \<and> (\<forall>a<length h.
                      (a \<in> set (buffer this) \<longrightarrow> cb_contents (h' ! a) = cb_contents (h ! a) @ [r0]
                                                  \<and> cb_inv (h' ! a))
                    \<and> (a \<notin> set (buffer this) \<longrightarrow> h' ! a = h ! a))"
      using h'(2) fr by blast
  next
    assume full: "\<exists>a\<in>set (buffer this). occupied (h ! a) = capacity (h ! a)"
    have "\<forall>a\<in>set (buffer this). a < length h" using assms(5) by simp
    from push_buffers_blocked[OF assms(4) this len full, of 0]
    show "Buffered_Socket_push quiet this h = None"
      using cp by (simp add: Buffered_Socket_push_def)
  qed
qed

















lemma port_bind_spec:
  "Buffered_Socket_bind this (Some s) =
     (if buffer s = [] then Inr (1, this)
      else Inr (0, this\<lparr>buffer := buffer this @ [last (buffer s)]\<rparr>))
   \<and> (socket_type this = IN \<longrightarrow>
        (buffer s = [] \<longrightarrow> Buffered_Socket_bind_cpy this (Some s) h = Inr (1, this, s, h))
      \<and> (buffer s \<noteq> [] \<and> socket_type s \<noteq> IN \<and> 1 \<le> buffer_size s \<longrightarrow>
           (\<exists>b. Circular_Buffer_new (buffer_size s) (n_elmts (socket s)) = Inr b
              \<and> Buffered_Socket_bind_cpy this (Some s) h =
                  Inr (0, this\<lparr>buffer := buffer this @ [length h]\<rparr>,
                          s\<lparr>socket_data := socket_data s @ [replicate (n_elmts (socket s)) 0],
                            buffer := buffer s @ [length h]\<rparr>,
                          h @ [b]))))"
  by (auto simp: Buffered_Socket_bind_def Buffered_Socket_bind_cpy_def get_last_buffer_def
      create_new_out_buffer_def Circular_Buffer_new_def Let_def)

text \<open>
  Claim C7. \<open>bind\<close> returns 1 and changes nothing when the producer has no buffer; it
  returns 0 otherwise, and the consumer then also references the producer's latest buffer.
  \<open>bind_cpy\<close>, called on an input port, returns 1 and changes nothing under the same
  condition; otherwise, for a producer that is not an input port and has a capacity of at
  least 1, it returns 0, the producer has a new empty buffer and a new staging record, and
  the consumer references the new buffer.
\<close>

theorem port_bind_fails_iff_no_buffer:
  "Buffered_Socket_bind this (Some s) =
     (if buffer s = [] then Inr (1, this)
      else Inr (0, this\<lparr>buffer := buffer this @ [last (buffer s)]\<rparr>))
   \<and> (socket_type this = IN \<longrightarrow>
        (buffer s = [] \<longrightarrow> Buffered_Socket_bind_cpy this (Some s) h = Inr (1, this, s, h))
      \<and> (buffer s \<noteq> [] \<and> socket_type s \<noteq> IN \<and> 1 \<le> buffer_size s \<longrightarrow>
           (\<exists>b. Circular_Buffer_new (buffer_size s) (n_elmts (socket s)) = Inr b
              \<and> Buffered_Socket_bind_cpy this (Some s) h =
                  Inr (0, this\<lparr>buffer := buffer this @ [length h]\<rparr>,
                          s\<lparr>socket_data := socket_data s @ [replicate (n_elmts (socket s)) 0],
                            buffer := buffer s @ [length h]\<rparr>,
                          h @ [b]))))"
  by (rule port_bind_spec)

theorem port_bind_fails_iff_no_buffer_witness:
  "socket_type (ex_in_port\<lparr>buffer := []\<rparr>) = IN \<and> buffer ex_out_port \<noteq> [] \<and>
   socket_type ex_out_port \<noteq> IN \<and> 1 \<le> buffer_size ex_out_port \<and>
   Buffered_Socket_bind (ex_in_port\<lparr>buffer := []\<rparr>) (Some ex_out_port) =
     Inr (0, ex_in_port\<lparr>buffer := [1]\<rparr>) \<and>
   Buffered_Socket_bind (ex_in_port\<lparr>buffer := []\<rparr>) (Some (ex_out_port\<lparr>buffer := []\<rparr>)) =
     Inr (1, ex_in_port\<lparr>buffer := []\<rparr>) \<and>
   (\<exists>b. Circular_Buffer_new (buffer_size ex_out_port) (n_elmts (socket ex_out_port)) = Inr b
       \<and> Buffered_Socket_bind_cpy (ex_in_port\<lparr>buffer := []\<rparr>) (Some ex_out_port)
             [ex_empty_ring, ex_half_ring] =
           Inr (0, ex_in_port\<lparr>buffer := [2]\<rparr>,
                   ex_out_port\<lparr>socket_data := [[5, 6], [0, 0], [0, 0]], buffer := [0, 1, 2]\<rparr>,
                   [ex_empty_ring, ex_half_ring] @ [b]))"
proof -
  let ?c = "ex_in_port\<lparr>buffer := []\<rparr>"
  let ?h = "[ex_empty_ring, ex_half_ring]"
  have h1: "socket_type ?c = IN" by (simp add: ex_in_port_def)
  have h2: "buffer ex_out_port \<noteq> []" "socket_type ex_out_port \<noteq> IN" "1 \<le> buffer_size ex_out_port"
    by (simp_all add: ex_out_port_def)
  have v: "last (buffer ex_out_port) = 1" "buffer ex_out_port = [0, 1]"
    "socket_data ex_out_port = [[5, 6], [0, 0]]" "n_elmts (socket ex_out_port) = 2"
    by (simp_all add: ex_out_port_def)
  from port_bind_fails_iff_no_buffer[where this = ?c and s = ex_out_port and h = ?h]
       port_bind_fails_iff_no_buffer[where this = ?c and s = "ex_out_port\<lparr>buffer := []\<rparr>" and h = ?h]
       h1 h2 v
  show ?thesis by (simp add: numeral_2_eq_2)
qed


section \<open>Construction and the capacity\<close>

lemma Buffered_Socket_new_IN:
  "Buffered_Socket_new sck IN cap h =
     Inr (\<lparr>socket = sck\<lparr>dataptr := Some 0\<rparr>, socket_type = IN, buffer_size = cap,
           socket_data = [replicate (n_elmts sck) 0], buffer = [], pop_buffer_idx = 0\<rparr>, h)"
  by (simp add: Buffered_Socket_new_def)

lemma Buffered_Socket_new_ring:
  assumes "st \<noteq> IN"
  shows "Buffered_Socket_new sck st cap h =
           (case Circular_Buffer_new cap (n_elmts sck) of
              Inl e \<Rightarrow> Inl e
            | Inr b \<Rightarrow>
                Inr (\<lparr>socket = sck\<lparr>dataptr := Some 0\<rparr>, socket_type = st, buffer_size = cap,
                      socket_data = [replicate (n_elmts sck) 0], buffer = [length h],
                      pop_buffer_idx = 0\<rparr>, h @ [b]))"
  using assms by (cases st) (auto simp: Buffered_Socket_new_def Let_def split: sum.splits)

lemma Buffered_Socket_new_not_IN:
  assumes "st \<noteq> IN"
  shows "(cap < 1 \<longrightarrow> Buffered_Socket_new sck st cap h = Inl CapacityMisuse)
       \<and> (1 \<le> cap \<longrightarrow> (\<exists>b. Circular_Buffer_new cap (n_elmts sck) = Inr b \<and>
            Buffered_Socket_new sck st cap h =
              Inr (\<lparr>socket = sck\<lparr>dataptr := Some 0\<rparr>, socket_type = st, buffer_size = cap,
                    socket_data = [replicate (n_elmts sck) 0], buffer = [length h],
                    pop_buffer_idx = 0\<rparr>, h @ [b])))"
  using assms by (cases st) (auto simp: Buffered_Socket_new_def Circular_Buffer_new_def Let_def)

lemma map_emplace_set: "set (map_emplace k v m) \<subseteq> insert (k, v) (set m)"
  by (induction m) (auto split: if_splits)

lemma add_sockets_fails:
  "cap < 1 \<Longrightarrow> ring_sockets ss \<noteq> [] \<Longrightarrow> add_sockets ss cap this h = Inl CapacityMisuse"
proof (induction ss arbitrary: this h)
  case Nil
  then show ?case by (simp add: ring_sockets_def)
next
  case (Cons x ss)
  obtain s ty where x: "x = (s, ty)" by (cases x)
  show ?case
  proof (cases "ty \<noteq> IN \<and> has_port_branch (datatype_string s)")
    case True
    then show ?thesis
      using Buffered_Socket_new_not_IN[of ty cap s h] Cons.prems(1) x by simp
  next
    case False
    then have rs: "ring_sockets ss \<noteq> []" using Cons.prems(2) x by (auto simp: ring_sockets_def)
    show ?thesis
      using False x Cons.IH[OF Cons.prems(1) rs] by (auto simp: Buffered_Socket_new_IN)
  qed
qed

lemma add_sockets_rings:
  assumes "1 \<le> cap \<or> ring_sockets ss = []"
  shows "\<exists>blk bs. add_sockets ss cap this h = Inr (blk, h @ bs)
           \<and> map Inr bs = map (\<lambda>(s, ty). Circular_Buffer_new cap (n_elmts s)) (ring_sockets ss)
           \<and> block_buffer_size blk = block_buffer_size this
           \<and> (\<forall>(nm, p)\<in>set (buffered_sockets_in blk).
                 (nm, p) \<in> set (buffered_sockets_in this) \<or> buffer_size p = cap)
           \<and> (\<forall>(nm, p)\<in>set (buffered_sockets_out blk).
                 (nm, p) \<in> set (buffered_sockets_out this) \<or> buffer_size p = cap)"
  using assms
proof (induction ss arbitrary: this h)
  case Nil
  then show ?case by (auto simp: ring_sockets_def)
next
  case (Cons x ss)
  obtain s ty where x: "x = (s, ty)" by (cases x)
  show ?case
  proof (cases "has_port_branch (datatype_string s)")
    case False
    then have rs: "ring_sockets (x # ss) = ring_sockets ss" using x by (simp add: ring_sockets_def)
    from Cons.IH[of this h] Cons.prems show ?thesis unfolding rs using x False by simp
  next
    case True
    note hp = this
    show ?thesis
    proof (cases "ty = IN")
      case True
      then have rs: "ring_sockets (x # ss) = ring_sockets ss" using x by (simp add: ring_sockets_def)
      let ?p = "\<lparr>socket = s\<lparr>dataptr := Some 0\<rparr>, socket_type = IN, buffer_size = cap,
                 socket_data = [replicate (n_elmts s) 0], buffer = [], pop_buffer_idx = 0\<rparr>"
      let ?t0 = "this\<lparr>buffered_sockets_in := map_emplace (sck_name s) ?p (buffered_sockets_in this)\<rparr>"
      have step: "add_sockets (x # ss) cap this h = add_sockets ss cap ?t0 h"
        using x True hp by (simp add: Buffered_Socket_new_IN)
      from Cons.IH[of ?t0 h] Cons.prems obtain blk bs where
        r: "add_sockets ss cap ?t0 h = Inr (blk, h @ bs)"
           "map Inr bs = map (\<lambda>(s, ty). Circular_Buffer_new cap (n_elmts s)) (ring_sockets ss)"
           "block_buffer_size blk = block_buffer_size ?t0"
           "\<forall>(nm, p)\<in>set (buffered_sockets_in blk).
                 (nm, p) \<in> set (buffered_sockets_in ?t0) \<or> buffer_size p = cap"
           "\<forall>(nm, p)\<in>set (buffered_sockets_out blk).
                 (nm, p) \<in> set (buffered_sockets_out ?t0) \<or> buffer_size p = cap"
        unfolding rs by blast
      have "\<forall>(nm, p)\<in>set (buffered_sockets_in blk).
                 (nm, p) \<in> set (buffered_sockets_in this) \<or> buffer_size p = cap"
        using r(4) map_emplace_set[of "sck_name s" ?p "buffered_sockets_in this"] by auto
      then show ?thesis unfolding rs step using r by auto
    next
      case False
      then have rs: "ring_sockets (x # ss) = (s, ty) # ring_sockets ss"
        using x hp by (simp add: ring_sockets_def)
      then have cap: "1 \<le> cap" using Cons.prems by simp
      then obtain b where b: "Circular_Buffer_new cap (n_elmts s) = (Inr b :: error + 'a Circular_Buffer)"
        by (simp add: Circular_Buffer_new_def)
      let ?p = "\<lparr>socket = s\<lparr>dataptr := Some 0\<rparr>, socket_type = ty, buffer_size = cap,
                 socket_data = [replicate (n_elmts s) 0], buffer = [length h], pop_buffer_idx = 0\<rparr>"
      let ?t0 = "this\<lparr>buffered_sockets_out := map_emplace (sck_name s) ?p (buffered_sockets_out this)\<rparr>"
      have step: "add_sockets (x # ss) cap this h = add_sockets ss cap ?t0 (h @ [b])"
        using x False hp b by (simp add: Buffered_Socket_new_ring)
      from Cons.IH[of ?t0 "h @ [b]"] cap obtain blk bs where
        r: "add_sockets ss cap ?t0 (h @ [b]) = Inr (blk, (h @ [b]) @ bs)"
           "map Inr bs = map (\<lambda>(s, ty). Circular_Buffer_new cap (n_elmts s)) (ring_sockets ss)"
           "block_buffer_size blk = block_buffer_size ?t0"
           "\<forall>(nm, p)\<in>set (buffered_sockets_in blk).
                 (nm, p) \<in> set (buffered_sockets_in ?t0) \<or> buffer_size p = cap"
           "\<forall>(nm, p)\<in>set (buffered_sockets_out blk).
                 (nm, p) \<in> set (buffered_sockets_out ?t0) \<or> buffer_size p = cap"
        by blast
      have o: "\<forall>(nm, p)\<in>set (buffered_sockets_out blk).
                 (nm, p) \<in> set (buffered_sockets_out this) \<or> buffer_size p = cap"
        using r(5) map_emplace_set[of "sck_name s" ?p "buffered_sockets_out this"] by auto
      have m: "map Inr (b # bs) = map (\<lambda>(s, ty). Circular_Buffer_new cap (n_elmts s)) (ring_sockets (x # ss))"
        unfolding rs using r(2) b by simp
      have "add_sockets (x # ss) cap this h = Inr (blk, h @ (b # bs))"
        unfolding step using r(1) by simp
      then show ?thesis using m r(3,4) o by (intro exI[of _ blk] exI[of _ "b # bs"]) simp
    qed
  qed
qed

text \<open>
  Claim C9, as amended. The constructors of the port and of the block do not look at the
  capacity: they store it and hand it unchanged to the constructor of the circular buffer,
  once for every port they create whose direction is not input, and fail exactly when
  such a call fails, with its error. So an input port is constructed with any capacity
  and holds no buffer; a port of another direction is constructed exactly when the
  constructor of the circular buffer accepts the capacity, and then holds the buffer it
  returned; a block with a thread count that is not negative is constructed exactly
  when the constructor of the circular buffer accepts the capacity for every socket of its
  task that is not an input and whose datatype is one of the six, and then the block and
  its ports store the capacity and the new buffers are the ones those calls returned, in
  the order of the sockets; when the task has no such socket, the block is constructed
  with any capacity. The constructor of the circular buffer, as the specification
  describes it, rejects exactly the capacities below 1.
\<close>

theorem capacity_checked_only_where_a_ring_is_built:
  "Buffered_Socket_new sck IN cap (h :: ('a::zero) heap) =
     Inr (\<lparr>socket = sck\<lparr>dataptr := Some 0\<rparr>, socket_type = IN, buffer_size = cap,
           socket_data = [replicate (n_elmts sck) 0], buffer = [], pop_buffer_idx = 0\<rparr>, h)
   \<and> (st \<noteq> IN \<longrightarrow>
        Buffered_Socket_new sck st cap h =
           (case Circular_Buffer_new cap (n_elmts sck) of
              Inl e \<Rightarrow> Inl e
            | Inr b \<Rightarrow>
                Inr (\<lparr>socket = sck\<lparr>dataptr := Some 0\<rparr>, socket_type = st, buffer_size = cap,
                      socket_data = [replicate (n_elmts sck) 0], buffer = [length h],
                      pop_buffer_idx = 0\<rparr>, h @ [b])))
   \<and> (0 \<le> nthreads \<longrightarrow>
        (\<exists>(s, ty)\<in>set (ring_sockets (sockets task)). \<exists>e.
            Circular_Buffer_new cap (n_elmts s) = (Inl e :: error + 'a Circular_Buffer)
          \<and> Block_new task cap nthreads h = Inl e)
      \<or> (\<exists>blk bs. Block_new task cap nthreads h = Inr (blk, h @ bs)
            \<and> map Inr bs = map (\<lambda>(s, ty). Circular_Buffer_new cap (n_elmts s))
                               (ring_sockets (sockets task))
            \<and> block_buffer_size blk = cap
            \<and> (\<forall>(nm, p)\<in>set (buffered_sockets_in blk) \<union> set (buffered_sockets_out blk).
                  buffer_size p = cap)))
   \<and> (ring_sockets (sockets task) = [] \<and> 0 \<le> nthreads \<longrightarrow>
        (\<exists>blk. Block_new task cap nthreads h = Inr (blk, h)))
   \<and> (cap < 1 \<longrightarrow> Circular_Buffer_new cap n = (Inl CapacityMisuse :: error + 'a Circular_Buffer))
   \<and> (1 \<le> cap \<longrightarrow> (\<exists>b :: ('a::zero) Circular_Buffer.
          Circular_Buffer_new cap n = Inr b \<and> capacity b = nat cap \<and> occupied b = 0))"
proof -
  let ?t0 = "\<lparr>name = tsk_name task, n_threads = nthreads,
          tasks = replicate (nat nthreads) (task\<lparr>autoalloc := False, autoexec := False, fast := False\<rparr>),
          block_buffer_size = cap, buffered_sockets_in = [],
          buffered_sockets_out = [] :: (string \<times> 'a Buffered_Socket) list\<rparr>"
  have new: "Block_new task cap nthreads h = add_sockets (sockets task) cap ?t0 h"
    if "0 \<le> nthreads"
    using that by (simp add: Block_new_def Let_def)
  have stage: "(\<exists>(s, ty)\<in>set (ring_sockets (sockets task)). \<exists>e.
            Circular_Buffer_new cap (n_elmts s) = (Inl e :: error + 'a Circular_Buffer)
          \<and> Block_new task cap nthreads h = Inl e)
      \<or> (\<exists>blk bs. Block_new task cap nthreads h = Inr (blk, h @ bs)
            \<and> map Inr bs = map (\<lambda>(s, ty). Circular_Buffer_new cap (n_elmts s))
                               (ring_sockets (sockets task))
            \<and> block_buffer_size blk = cap
            \<and> (\<forall>(nm, p)\<in>set (buffered_sockets_in blk) \<union> set (buffered_sockets_out blk).
                  buffer_size p = cap))"
    if nt: "0 \<le> nthreads"
  proof (cases "cap < 1 \<and> ring_sockets (sockets task) \<noteq> []")
    case True
    then obtain x where x: "x \<in> set (ring_sockets (sockets task))"
      by (cases "ring_sockets (sockets task)") auto
    obtain s ty where st: "x = (s, ty)" by (cases x)
    have "Circular_Buffer_new cap (n_elmts s) = (Inl CapacityMisuse :: error + 'a Circular_Buffer)"
      using True by (simp add: Circular_Buffer_new_def)
    moreover have "Block_new task cap nthreads h = Inl CapacityMisuse"
      unfolding new[OF nt] using True by (intro add_sockets_fails) simp_all
    ultimately show ?thesis using x st by blast
  next
    case False
    then have "1 \<le> cap \<or> ring_sockets (sockets task) = []" by auto
    from add_sockets_rings[OF this, of ?t0 h] obtain blk bs where
      r: "add_sockets (sockets task) cap ?t0 h = Inr (blk, h @ bs)"
         "map Inr bs = map (\<lambda>(s, ty). Circular_Buffer_new cap (n_elmts s)) (ring_sockets (sockets task))"
         "block_buffer_size blk = block_buffer_size ?t0"
         "\<forall>(nm, p)\<in>set (buffered_sockets_in blk).
                 (nm, p) \<in> set (buffered_sockets_in ?t0) \<or> buffer_size p = cap"
         "\<forall>(nm, p)\<in>set (buffered_sockets_out blk).
                 (nm, p) \<in> set (buffered_sockets_out ?t0) \<or> buffer_size p = cap"
      by blast
    have "\<forall>(nm, p)\<in>set (buffered_sockets_in blk) \<union> set (buffered_sockets_out blk).
                  buffer_size p = cap"
      using r(4,5) by auto
    then show ?thesis unfolding new[OF nt] using r(1,2,3) by auto
  qed
  have none: "\<exists>blk. Block_new task cap nthreads h = Inr (blk, h)"
    if "ring_sockets (sockets task) = [] \<and> 0 \<le> nthreads"
  proof -
    from that have "1 \<le> cap \<or> ring_sockets (sockets task) = []" by simp
    from add_sockets_rings[OF this, of ?t0 h] that show ?thesis
      using new by auto
  qed
  show ?thesis
    using Buffered_Socket_new_IN[of sck cap h] Buffered_Socket_new_ring[of st sck cap h]
      stage none
    by (auto simp: Circular_Buffer_new_def capacity_def)
qed

theorem capacity_checked_only_where_a_ring_is_built_witness:
  "Buffered_Socket_new \<lparr>sck_name = ''U_K'', datatype_string = ''int32'', n_elmts = 2, dataptr = None\<rparr>
       OUT 0 ([] :: int heap) = Inl CapacityMisuse \<and>
   Block_new source_generate 0 1 ([] :: int heap) = Inl CapacityMisuse \<and>
   (\<exists>blk. Block_new (encoder_encode\<lparr>sockets := [hd (sockets encoder_encode)]\<rparr>) 0 1 ([] :: int heap)
        = Inr (blk, [])) \<and>
   (\<exists>blk. Block_new source_generate 1 1 ([] :: int heap)
        = Inr (blk, [\<lparr>slots = [replicate 16 0], write_cursor = 0, read_cursor = 0, occupied = 0,
                      stopped = False\<rparr>])
      \<and> block_buffer_size blk = 1)"
proof -
  let ?s = "\<lparr>sck_name = ''U_K'', datatype_string = ''int32'', n_elmts = 2, dataptr = None\<rparr>"
  let ?enc = "encoder_encode\<lparr>sockets := [hd (sockets encoder_encode)]\<rparr>"
  have a: "ring_sockets (sockets source_generate)
             = [(\<lparr>sck_name = ''U_K'', datatype_string = ''int32'', n_elmts = 16, dataptr = None\<rparr>, OUT)]"
    by (simp add: source_generate_def has_port_branch_def ring_sockets_def)
  have b: "ring_sockets (sockets ?enc) = []"
    by (simp add: encoder_encode_def ring_sockets_def)
  have c0: "Circular_Buffer_new 0 n = (Inl CapacityMisuse :: error + int Circular_Buffer)" for n
    by (simp add: Circular_Buffer_new_def)
  have c1: "Circular_Buffer_new 1 n = (Inr \<lparr>slots = [replicate n 0], write_cursor = 0, read_cursor = 0,
                occupied = 0, stopped = False\<rparr> :: error + int Circular_Buffer)" for n
    by (simp add: Circular_Buffer_new_def)
  from capacity_checked_only_where_a_ring_is_built[of ?s 0 "[] :: int heap" OUT 1 source_generate]
  have 1: "Buffered_Socket_new ?s OUT 0 ([] :: int heap) = Inl CapacityMisuse"
    and 2: "Block_new source_generate 0 1 ([] :: int heap) = Inl CapacityMisuse"
    unfolding a by (auto simp: c0)
  from capacity_checked_only_where_a_ring_is_built[of ?s 0 "[] :: int heap" OUT 1 ?enc] b
  have 3: "\<exists>blk. Block_new ?enc 0 1 ([] :: int heap) = Inr (blk, [])"
    by simp
  from capacity_checked_only_where_a_ring_is_built[of ?s 1 "[] :: int heap" OUT 1 source_generate]
  have 4: "\<exists>blk. Block_new source_generate 1 1 ([] :: int heap)
        = Inr (blk, [\<lparr>slots = [replicate 16 0], write_cursor = 0, read_cursor = 0, occupied = 0,
                      stopped = False\<rparr>])
      \<and> block_buffer_size blk = 1"
    unfolding a by (auto simp: c1)
  from 1 2 3 4 show ?thesis by blast
qed

text \<open>
  Claim C9 as stated fails: an input port is constructed with the capacity 0.
\<close>

theorem capacity_zero_constructs_input_port:
  "Buffered_Socket_new \<lparr>sck_name = ''U_K'', datatype_string = ''int32'', n_elmts = 2, dataptr = None\<rparr>
       IN 0 ([] :: int heap)
   = Inr (\<lparr>socket = \<lparr>sck_name = ''U_K'', datatype_string = ''int32'', n_elmts = 2, dataptr = Some 0\<rparr>,
           socket_type = IN, buffer_size = 0, socket_data = [[0, 0]], buffer = [],
           pop_buffer_idx = 0\<rparr>, [])"
  by (simp add: Buffered_Socket_new_def numeral_2_eq_2)

section \<open>Binding two blocks\<close>

lemma bind_stanzas_no_socket:
  "\<forall>T\<in>set Ts. get_buffered_socket_in T this nm = None \<Longrightarrow>
     bind_stanzas Ts this nm dest dnm = Inr (1, this)"
  by (induction Ts) simp_all

lemma Block_bind_no_such_input:
  "map_of (buffered_sockets_in this) start_sck_name = None \<Longrightarrow>
     Block_bind this start_sck_name dest_block dest_sck_name = Inr (1, this)"
  by (simp add: Block_bind_def bind_stanzas_no_socket get_buffered_socket_in_def)

lemma bind_stanzas_found:
  assumes "map_of (buffered_sockets_in this) nm = Some sck"
    and "datatype_string (socket sck) \<in> set Ts"
  shows "bind_stanzas Ts this nm dest dnm =
           (case Buffered_Socket_bind sck (get_buffered_socket_out (datatype_string (socket sck)) dest dnm) of
              Inl e \<Rightarrow> Inl e
            | Inr (rc, sck') \<Rightarrow>
                Inr (rc, this\<lparr>buffered_sockets_in := map_assign nm sck' (buffered_sockets_in this)\<rparr>))"
  using assms(2)
proof (induction Ts)
  case Nil
  then show ?case by simp
next
  case (Cons T Ts)
  show ?case
  proof (cases "datatype_string (socket sck) = T")
    case True
    then have "get_buffered_socket_in T this nm = Some sck"
      using assms(1) by (simp add: get_buffered_socket_in_def)
    then show ?thesis using True by simp
  next
    case False
    then have "get_buffered_socket_in T this nm = None"
      using assms(1) by (simp add: get_buffered_socket_in_def)
    then show ?thesis using Cons False by simp
  qed
qed

lemma Block_bind_null_destination:
  assumes "map_of (buffered_sockets_in this) start_sck_name = Some sck"
    and "datatype_string (socket sck) \<in> set scalar_kinds"
    and "get_buffered_socket_out (datatype_string (socket sck)) dest_block dest_sck_name = None"
  shows "Block_bind this start_sck_name dest_block dest_sck_name = Inl NullPointerDereference"
  unfolding Block_bind_def bind_stanzas_found[OF assms(1,2)]
  using assms(3) by (simp add: Buffered_Socket_bind_def)


text \<open>
  Which ports a constructed block has: an input port for each input socket whose datatype
  is one of the six, an output port for each other socket whose datatype is one of the
  six, and nothing else. A name that only sockets of other datatypes carry is in neither
  map, and \<open>bind\<close> called with it on this block returns 1 and changes nothing.
\<close>

lemma map_emplace_keys: "fst ` set (map_emplace k v m) = insert k (fst ` set m)"
proof (induction m)
  case Nil
  then show ?case by simp
next
  case (Cons x m)
  obtain k' v' where x: "x = (k', v')" by (cases x)
  show ?case using Cons.IH x by (simp add: insert_commute)
qed

lemma map_assign_same: "map_of m k = Some v \<Longrightarrow> map_assign k v m = m"
  by (induction m) (auto split: if_splits)

lemma add_sockets_keys:
  "add_sockets ss bsize this h = Inr (blk, h') \<Longrightarrow>
     fst ` set (buffered_sockets_in blk) =
       fst ` set (buffered_sockets_in this)
       \<union> {sck_name s |s. (s, IN) \<in> set ss \<and> has_port_branch (datatype_string s)}
   \<and> fst ` set (buffered_sockets_out blk) =
       fst ` set (buffered_sockets_out this)
       \<union> {sck_name s |s ty. (s, ty) \<in> set ss \<and> ty \<noteq> IN \<and> has_port_branch (datatype_string s)}"
proof (induction ss arbitrary: this h)
  case Nil
  then show ?case by simp
next
  case (Cons x ss)
  obtain s ty where x: "x = (s, ty)" by (cases x)
  show ?case
  proof (cases "has_port_branch (datatype_string s)")
    case False
    then have "add_sockets ss bsize this h = Inr (blk, h')"
      using Cons.prems x by (simp split: if_splits)
    from Cons.IH[OF this] show ?thesis using False x by auto
  next
    case True
    note sup = this
    from Cons.prems x sup obtain p h1 where
      new: "Buffered_Socket_new s ty bsize h = Inr (p, h1)"
      by (cases "Buffered_Socket_new s ty bsize h") (auto split: if_splits)
    show ?thesis
    proof (cases "ty = IN")
      case True
      then have "add_sockets ss bsize
                 (this\<lparr>buffered_sockets_in := map_emplace (sck_name s) p (buffered_sockets_in this)\<rparr>) h1
                 = Inr (blk, h')"
        using Cons.prems x sup new by simp
      from Cons.IH[OF this] show ?thesis
        using True x sup by (auto simp: map_emplace_keys)
    next
      case False
      then have "add_sockets ss bsize
                 (this\<lparr>buffered_sockets_out := map_emplace (sck_name s) p (buffered_sockets_out this)\<rparr>) h1
                 = Inr (blk, h')"
        using Cons.prems x sup new by simp
      from Cons.IH[OF this] show ?thesis
        using False x sup by (auto simp: map_emplace_keys)
    qed
  qed
qed

lemma Block_new_no_port_for_other_datatypes:
  assumes "Block_new task bsize nthreads h = Inr (blk, h')"
    and "\<forall>(s, ty)\<in>set (sockets task). sck_name s = nm \<longrightarrow> \<not> has_port_branch (datatype_string s)"
  shows "map_of (buffered_sockets_in blk) nm = None \<and> map_of (buffered_sockets_out blk) nm = None"
proof -
  let ?this = "\<lparr>name = tsk_name task, n_threads = nthreads,
      tasks = replicate (nat nthreads) (task\<lparr>autoalloc := False, autoexec := False, fast := False\<rparr>),
      block_buffer_size = bsize, buffered_sockets_in = [], buffered_sockets_out = []\<rparr>
      :: 'a Block"
  have "add_sockets (sockets task) bsize ?this h = Inr (blk, h')"
    using assms(1) by (simp add: Block_new_def Let_def split: if_splits)
  from add_sockets_keys[OF this] assms(2)
  have "nm \<notin> fst ` set (buffered_sockets_in blk)" "nm \<notin> fst ` set (buffered_sockets_out blk)"
    by auto
  then show ?thesis by (simp add: map_of_eq_None_iff)
qed

lemma Block_bind_other_datatype_input:
  assumes "Block_new task bsize nthreads h = Inr (blk, h')"
    and "\<forall>(s, ty)\<in>set (sockets task). sck_name s = nm \<longrightarrow> \<not> has_port_branch (datatype_string s)"
  shows "Block_bind blk nm dest_block dest_sck_name = Inr (1, blk)"
  using Block_new_no_port_for_other_datatypes[OF assms]
  by (simp add: Block_bind_no_such_input)

text \<open>
  Claim C2 fails on the code. \<open>Block::bind\<close> hands the result of
  \<open>get_buffered_socket_out\<close> to the port's \<open>bind\<close> without looking at it, and that
  result is null both when the destination block has no output port of the given name and
  when the port is of another scalar kind; the port's \<open>bind\<close> dereferences it. Here the
  encoder's input \<open>U_K\<close> is bound to the name \<open>X_N\<close>, which the source block does not
  have, and to the output \<open>X_N2\<close> of the modem block, which is of kind float32. Only a
  name missing on the block that \<open>bind\<close> is called on gives the result 1.
\<close>

theorem Block_bind_missing_destination_crashes:
  "(case Block_new source_generate 8 1 ([] :: int heap) of
      Inl e \<Rightarrow> None
    | Inr (bl_source, h1) \<Rightarrow>
       (case Block_new encoder_encode 8 1 h1 of
          Inl e \<Rightarrow> None
        | Inr (bl_encoder, h2) \<Rightarrow>
           (case Block_new modem_modulate 8 1 h2 of
              Inl e \<Rightarrow> None
            | Inr (bl_modem, h3) \<Rightarrow>
                Some (Block_bind bl_encoder ''U_K'' bl_source ''X_N'',
                      Block_bind bl_encoder ''U_K'' bl_modem ''X_N2'',
                      Block_bind bl_encoder ''V_K'' bl_source ''U_K'' = Inr (1, bl_encoder)))))
   = Some (Inl NullPointerDereference, Inl NullPointerDereference, True)"
  by (simp add: Block_new_def source_generate_def encoder_encode_def modem_modulate_def
      has_port_branch_def Buffered_Socket_new_def Circular_Buffer_new_def Block_bind_def
      scalar_kinds_def get_buffered_socket_in_def get_buffered_socket_out_def
      Buffered_Socket_bind_def get_last_buffer_def Let_def)

lemma add_sockets_same_ports:
  assumes "buffered_sockets_in this1 = buffered_sockets_in this2"
    and "buffered_sockets_out this1 = buffered_sockets_out this2"
  shows "ports_and_store (add_sockets ss cap this1 h) = ports_and_store (add_sockets ss cap this2 h)"
  using assms
proof (induction ss arbitrary: this1 this2 h)
  case Nil
  then show ?case by (simp add: ports_and_store_def)
next
  case (Cons x ss)
  obtain s ty where x: "x = (s, ty)" by (cases x)
  have i: "ports_and_store (add_sockets ss cap (this1\<lparr>buffered_sockets_in := m\<rparr>) h')
         = ports_and_store (add_sockets ss cap (this2\<lparr>buffered_sockets_in := m\<rparr>) h')" for m h'
    using Cons.prems by (intro Cons.IH) simp_all
  have o: "ports_and_store (add_sockets ss cap (this1\<lparr>buffered_sockets_out := m\<rparr>) h')
         = ports_and_store (add_sockets ss cap (this2\<lparr>buffered_sockets_out := m\<rparr>) h')" for m h'
    using Cons.prems by (intro Cons.IH) simp_all
  have e: "ports_and_store (Inl e) = (Inl e :: error + ((string \<times> 'a Buffered_Socket) list
             \<times> (string \<times> 'a Buffered_Socket) list \<times> 'a heap))" for e
    by (simp add: ports_and_store_def)
  show ?case
    unfolding x using Cons.IH[OF Cons.prems] i o Cons.prems
    by (simp add: e split: sum.splits prod.splits)
qed

lemma add_sockets_skips:
  "\<not> has_port_branch (datatype_string s) \<Longrightarrow>
     add_sockets (xs @ (s, ty) # ys) cap this h = add_sockets (xs @ ys) cap this h"
proof (induction xs arbitrary: this h)
  case Nil
  then show ?case by simp
next
  case (Cons x xs)
  obtain s' ty' where x: "x = (s', ty')" by (cases x)
  show ?case unfolding x using Cons.IH[OF Cons.prems] by (simp split: sum.splits)
qed

lemma bind_stanzas_absent_destination:
  assumes "map_of (buffered_sockets_out dest) nm = None"
    and "map_of (buffered_sockets_out dest) nm' = None"
  shows "bind_stanzas Ts this start dest nm = bind_stanzas Ts this start dest nm'"
  using assms by (induction Ts) (simp_all add: get_buffered_socket_out_def split: option.splits)

text \<open>
  Claim C10. A socket of a task whose datatype string is none of the six is passed over
  by the constructor of the block: whatever the other sockets are, the constructor fails
  or succeeds as it does on the task without that socket, with the same error or the same
  two maps of ports and the same store, so that no port and no buffer is created for the
  socket and nothing is reported. When no socket of one of the six datatypes bears its
  name, the name is in neither map of the block; \<open>bind\<close> called on the block with that
  name as the start returns 1 and leaves the block as it is, which is what it does for a
  name that no input port bears; and \<open>bind\<close> called on any block with that name as the
  destination does what it does with any other name that no output port of the block
  bears.
\<close>

theorem unsupported_socket_has_no_port:
  assumes "sockets task = xs @ (s, ty) # ys"
    and "\<not> has_port_branch (datatype_string s)"
  shows "ports_and_store (Block_new task cap nthreads h)
           = ports_and_store (Block_new (task\<lparr>sockets := xs @ ys\<rparr>) cap nthreads h)
       \<and> (\<forall>blk h'. Block_new task cap nthreads h = Inr (blk, h')
             \<and> (\<forall>(s', ty')\<in>set (sockets task).
                   sck_name s' = sck_name s \<longrightarrow> \<not> has_port_branch (datatype_string s'))
            \<longrightarrow> map_of (buffered_sockets_in blk) (sck_name s) = None
              \<and> map_of (buffered_sockets_out blk) (sck_name s) = None
              \<and> (\<forall>dest dnm. Block_bind blk (sck_name s) dest dnm = Inr (1, blk))
              \<and> (\<forall>other start nm'.
                    map_of (buffered_sockets_out blk) nm' = None \<longrightarrow>
                    Block_bind other start blk (sck_name s) = Block_bind other start blk nm'))"
proof (intro conjI allI impI)
  let ?t1 = "task\<lparr>autoalloc := False, autoexec := False, fast := False\<rparr>"
  let ?t2 = "task\<lparr>sockets := xs @ ys, autoalloc := False, autoexec := False, fast := False\<rparr>"
  let ?b = "\<lparr>name = tsk_name task, n_threads = nthreads,
             tasks = replicate (nat nthreads) ?t1, block_buffer_size = cap,
             buffered_sockets_in = [], buffered_sockets_out = [] :: (string \<times> 'a Buffered_Socket) list\<rparr>"
  show "ports_and_store (Block_new task cap nthreads h)
           = ports_and_store (Block_new (task\<lparr>sockets := xs @ ys\<rparr>) cap nthreads h)"
  proof (cases "nthreads < 0")
    case True
    then show ?thesis by (simp add: Block_new_def)
  next
    case False
    have 1: "Block_new task cap nthreads h = add_sockets (xs @ ys) cap ?b h"
      using False assms(1) add_sockets_skips[OF assms(2), of xs ty ys cap ?b h]
      by (simp add: Block_new_def Let_def)
    have 2: "Block_new (task\<lparr>sockets := xs @ ys\<rparr>) cap nthreads h
               = add_sockets (xs @ ys) cap (?b\<lparr>tasks := replicate (nat nthreads) ?t2\<rparr>) h"
      using False by (simp add: Block_new_def Let_def)
    show ?thesis unfolding 1 2 by (rule add_sockets_same_ports) simp_all
  qed
next
  fix blk h'
  assume a: "Block_new task cap nthreads h = Inr (blk, h')
             \<and> (\<forall>(s', ty')\<in>set (sockets task).
                   sck_name s' = sck_name s \<longrightarrow> \<not> has_port_branch (datatype_string s'))"
  then have new: "Block_new task cap nthreads h = Inr (blk, h')"
    and only: "\<forall>(s', ty')\<in>set (sockets task).
                   sck_name s' = sck_name s \<longrightarrow> \<not> has_port_branch (datatype_string s')"
    by simp_all
  note absent = Block_new_no_port_for_other_datatypes[OF new only]
  show "map_of (buffered_sockets_in blk) (sck_name s) = None"
    and out: "map_of (buffered_sockets_out blk) (sck_name s) = None"
    using absent by simp_all
  {
    fix dest :: "'a Block" and dnm
    show "Block_bind blk (sck_name s) dest dnm = Inr (1, blk)"
      by (rule Block_bind_other_datatype_input[OF new only])
  }
  {
    fix other :: "'a Block" and start nm'
    assume "map_of (buffered_sockets_out blk) nm' = None"
    then show "Block_bind other start blk (sck_name s) = Block_bind other start blk nm'"
      unfolding Block_bind_def using out by (intro bind_stanzas_absent_destination)
  }
qed


theorem unsupported_socket_has_no_port_witness:
  "\<exists>blk. Block_new custom_task 8 1 ([] :: int heap) = Inr (blk, [])
      \<and> buffered_sockets_in blk = [] \<and> buffered_sockets_out blk = []
      \<and> Block_bind blk ''Y_N'' ex_block ''X_N'' = Inr (1, blk)
      \<and> Block_bind ex_block ''U_K'' blk ''Y_N'' = Block_bind ex_block ''U_K'' blk ''Z_N''"
proof -
  let ?s = "\<lparr>sck_name = ''Y_N'', datatype_string = ''uint8'', n_elmts = 4, dataptr = None\<rparr>"
  have s: "sockets custom_task = [] @ (?s, OUT) # []" by (simp add: custom_task_def)
  have u: "\<not> has_port_branch (datatype_string ?s)" by (simp add: has_port_branch_def)
  note T = unsupported_socket_has_no_port[OF s u, of 8 1 "[] :: int heap"]
  have "ports_and_store (Block_new (custom_task\<lparr>sockets := [] @ []\<rparr>) 8 1 ([] :: int heap))
          = Inr ([], [], [])"
    by (simp add: Block_new_def ports_and_store_def Let_def)
  with T obtain blk where
    blk: "Block_new custom_task 8 1 ([] :: int heap) = Inr (blk, [])"
         "buffered_sockets_in blk = []" "buffered_sockets_out blk = []"
    by (auto simp: ports_and_store_def split: sum.splits prod.splits)
  have only: "\<forall>(s', ty')\<in>set (sockets custom_task).
                sck_name s' = sck_name ?s \<longrightarrow> \<not> has_port_branch (datatype_string s')"
    by (simp add: custom_task_def has_port_branch_def)
  have z: "map_of (buffered_sockets_out blk) ''Z_N'' = None" using blk(3) by simp
  from T blk(1) only z
  have "Block_bind blk ''Y_N'' ex_block ''X_N'' = Inr (1, blk)"
    and "Block_bind ex_block ''U_K'' blk ''Y_N'' = Block_bind ex_block ''U_K'' blk ''Z_N''"
    by simp_all
  with blk show ?thesis by blast
qed

section \<open>The worker loop and the stop flag\<close>

lemma stickyD: "sticky E \<Longrightarrow> isDone E s \<Longrightarrow> s \<le> t \<Longrightarrow> isDone E t"
  unfolding sticky_def by blast

lemma map_fst_map_assign: "map fst (map_assign k v m) = map fst m"
  by (induction m) auto

lemma pop_loop_trace:
  assumes "sticky E"
  shows "(case pop_loop n E nm w of
            Returned w' \<Rightarrow>
              (trace w' = trace w @ [Popped nm]
               \<or> trace w' = trace w @ [Stop_seen] \<and> isDone E (clock w'))
          | other \<Rightarrow> trace (state_of other) = trace w)
       \<and> clock w \<le> clock (state_of (pop_loop n E nm w))
       \<and> map fst (buffered_sockets_in (block (state_of (pop_loop n E nm w))))
           = map fst (buffered_sockets_in (block w))"
proof (induction n arbitrary: w)
  case 0
  then show ?case by simp
next
  case (Suc n)
  show ?case
  proof (cases "isDone E (clock w)")
    case True
    have "isDone E (Suc (clock w))"
      by (rule stickyD[OF assms True]) simp
    then show ?thesis using True by simp
  next
    case False
    note nd = this
    show ?thesis
    proof (cases "map_of (buffered_sockets_in (block w)) nm")
      case None
      then show ?thesis using nd by (simp add: Let_def)
    next
      case (Some p)
      note sp = this
      let ?h = "interfere E (clock w) 0 (store w)"
      show ?thesis
      proof (cases "Buffered_Socket_pop p ?h")
        case (Inl e)
        then show ?thesis using nd sp by (simp add: Let_def)
      next
        case (Inr res)
        obtain rc p' h' where res: "res = (rc, p', h')" by (cases res)
        let ?w2 = "w\<lparr>clock := Suc (clock w), store := h',
                      block := (block w)\<lparr>buffered_sockets_in :=
                                   map_assign nm p' (buffered_sockets_in (block w))\<rparr>\<rparr>"
        show ?thesis
        proof (cases "rc = 0")
          case True
          then show ?thesis
            using nd sp Inr res by (simp add: Let_def map_fst_map_assign)
        next
          case False
          have eq: "pop_loop (Suc n) E nm w = pop_loop n E nm ?w2"
            using nd sp Inr res False by (simp add: Let_def)
          from Suc.IH[where w = ?w2] show ?thesis
            unfolding eq by (simp add: map_fst_map_assign split: outcome.splits)
        qed
      qed
    qed
  qed
qed


lemma pop_inputs_trace:
  assumes "sticky E"
  shows "\<exists>evs. trace (state_of (pop_inputs n E nms w)) = trace w @ evs \<and> polling_events evs
           \<and> clock w \<le> clock (state_of (pop_inputs n E nms w))
           \<and> map fst (buffered_sockets_in (block (state_of (pop_inputs n E nms w))))
               = map fst (buffered_sockets_in (block w))
           \<and> (\<forall>w'. pop_inputs n E nms w = Returned w' \<longrightarrow>
                 (Stop_seen \<notin> set evs \<longrightarrow> evs = map Popped nms)
               \<and> (Stop_seen \<in> set evs \<longrightarrow> isDone E (clock w')))"
proof (induction nms arbitrary: w)
  case Nil
  then show ?case by (simp add: polling_events_def)
next
  case (Cons nm nms)
  note pl = pop_loop_trace[OF assms, where n = n and nm = nm and w = w]
  show ?case
  proof (cases "pop_loop n E nm w")
    case (Returned w1)
    then have eq: "pop_inputs n E (nm # nms) w = pop_inputs n E nms w1" by simp
    from pl Returned have tr1: "trace w1 = trace w @ [Popped nm]
               \<or> trace w1 = trace w @ [Stop_seen] \<and> isDone E (clock w1)"
      and ck1: "clock w \<le> clock w1"
      and keys1: "map fst (buffered_sockets_in (block w1)) = map fst (buffered_sockets_in (block w))"
      by simp_all
    from Cons.IH[where w = w1] obtain evs where
      evs: "trace (state_of (pop_inputs n E nms w1)) = trace w1 @ evs" "polling_events evs"
        "clock w1 \<le> clock (state_of (pop_inputs n E nms w1))"
        "map fst (buffered_sockets_in (block (state_of (pop_inputs n E nms w1))))
               = map fst (buffered_sockets_in (block w1))"
        "\<forall>w'. pop_inputs n E nms w1 = Returned w' \<longrightarrow>
                 (Stop_seen \<notin> set evs \<longrightarrow> evs = map Popped nms)
               \<and> (Stop_seen \<in> set evs \<longrightarrow> isDone E (clock w'))"
      by blast
    from tr1 show ?thesis
    proof
      assume t: "trace w1 = trace w @ [Popped nm]"
      have "trace (state_of (pop_inputs n E nms w1)) = trace w @ (Popped nm # evs)"
        using evs(1) t by simp
      moreover have "polling_events (Popped nm # evs)"
        using evs(2) by (simp add: polling_events_def)
      moreover have "\<forall>w'. pop_inputs n E nms w1 = Returned w' \<longrightarrow>
                 (Stop_seen \<notin> set (Popped nm # evs) \<longrightarrow> Popped nm # evs = map Popped (nm # nms))
               \<and> (Stop_seen \<in> set (Popped nm # evs) \<longrightarrow> isDone E (clock w'))"
        using evs(5) by simp
      ultimately show ?thesis
        unfolding eq using evs(3,4) ck1 keys1 by (intro exI[of _ "Popped nm # evs"]) simp
    next
      assume t: "trace w1 = trace w @ [Stop_seen] \<and> isDone E (clock w1)"
      have "trace (state_of (pop_inputs n E nms w1)) = trace w @ (Stop_seen # evs)"
        using evs(1) t by simp
      moreover have "polling_events (Stop_seen # evs)"
        using evs(2) by (simp add: polling_events_def)
      moreover have "\<forall>w'. pop_inputs n E nms w1 = Returned w' \<longrightarrow>
                 (Stop_seen \<notin> set (Stop_seen # evs) \<longrightarrow> Stop_seen # evs = map Popped (nm # nms))
               \<and> (Stop_seen \<in> set (Stop_seen # evs) \<longrightarrow> isDone E (clock w'))"
      proof (intro allI impI conjI)
        fix w' assume r: "pop_inputs n E nms w1 = Returned w'"
        then have "clock w1 \<le> clock w'" using evs(3) by simp
        with t show "isDone E (clock w')" using stickyD[OF assms] by blast
      qed simp
      ultimately show ?thesis
        unfolding eq using evs(3,4) ck1 keys1 by (intro exI[of _ "Stop_seen # evs"]) simp
    qed
  next
    case (OutOfFuel w1)
    then show ?thesis using pl by (simp add: polling_events_def)
  next
    case (Hangs w1)
    then show ?thesis using pl by (simp add: polling_events_def)
  next
    case (Crashed e w1)
    then show ?thesis using pl by (simp add: polling_events_def)
  qed
qed

lemma push_loop_trace:
  "\<exists>evs. trace (state_of (push_loop n E nm w)) = trace w @ evs \<and> pushing_events evs
         \<and> map fst (buffered_sockets_in (block (state_of (push_loop n E nm w))))
             = map fst (buffered_sockets_in (block w))"
proof (induction n arbitrary: w)
  case 0
  then show ?case by (simp add: pushing_events_def)
next
  case (Suc n)
  show ?case
  proof (cases "isDone E (clock w)")
    case True
    then show ?thesis by (simp add: pushing_events_def)
  next
    case False
    note nd = this
    show ?thesis
    proof (cases "map_of (buffered_sockets_out (block w)) nm")
      case None
      then show ?thesis using nd by (simp add: Let_def pushing_events_def)
    next
      case (Some p)
      note sp = this
      show ?thesis
      proof (cases "Buffered_Socket_push (interfere E (clock w)) p (store w)")
        case None
        then show ?thesis using nd sp by (simp add: Let_def pushing_events_def)
      next
        case (Some r)
        note sr = this
        show ?thesis
        proof (cases r)
          case (Inl e)
          then show ?thesis using nd sp sr by (simp add: Let_def pushing_events_def)
        next
          case (Inr res)
          obtain rc p' h' where res: "res = (rc, p', h')" by (cases res)
          let ?w2 = "w\<lparr>clock := Suc (clock w), store := h',
                      block := (block w)\<lparr>buffered_sockets_out :=
                                   map_assign nm p' (buffered_sockets_out (block w))\<rparr>\<rparr>"
          show ?thesis
          proof (cases "rc = 0")
            case True
            then show ?thesis
              using nd sp sr Inr res by (simp add: Let_def pushing_events_def)
          next
            case False
            have eq: "push_loop (Suc n) E nm w = push_loop n E nm ?w2"
              using nd sp sr Inr res False by (simp add: Let_def)
            from Suc.IH[where w = ?w2] show ?thesis
              unfolding eq by simp
          qed
        qed
      qed
    qed
  qed
qed

lemma push_outputs_trace:
  "\<exists>evs. trace (state_of (push_outputs n E nms w)) = trace w @ evs \<and> pushing_events evs
         \<and> map fst (buffered_sockets_in (block (state_of (push_outputs n E nms w))))
             = map fst (buffered_sockets_in (block w))"
proof (induction nms arbitrary: w)
  case Nil
  then show ?case by (simp add: pushing_events_def)
next
  case (Cons nm nms)
  from push_loop_trace[where n = n and E = E and nm = nm and w = w] obtain evs1 where
    e1: "trace (state_of (push_loop n E nm w)) = trace w @ evs1" "pushing_events evs1"
      "map fst (buffered_sockets_in (block (state_of (push_loop n E nm w))))
             = map fst (buffered_sockets_in (block w))"
    by blast
  show ?case
  proof (cases "push_loop n E nm w")
    case (Returned w1)
    from Cons.IH[where w = w1] obtain evs2 where
      e2: "trace (state_of (push_outputs n E nms w1)) = trace w1 @ evs2" "pushing_events evs2"
        "map fst (buffered_sockets_in (block (state_of (push_outputs n E nms w1))))
             = map fst (buffered_sockets_in (block w1))"
      by blast
    have "pushing_events (evs1 @ evs2)"
      using e1(2) e2(2) by (auto simp: pushing_events_def)
    then show ?thesis
      using Returned e1 e2 by (intro exI[of _ "evs1 @ evs2"]) simp
  next
    case (OutOfFuel w1)
    then show ?thesis using e1 by auto
  next
    case (Hangs w1)
    then show ?thesis using e1 by auto
  next
    case (Crashed e w1)
    then show ?thesis using e1 by auto
  qed
qed

lemma exec_task_inputs: "buffered_sockets_in (exec_task E this) = buffered_sockets_in this"
  by (simp add: exec_task_def Let_def)

lemma monitor_polling:
  "polling_events evs \<Longrightarrow>
     in_order (foldl (monitor_step nms) m evs) = in_order m
   \<and> stop_seen (foldl (monitor_step nms) m evs) = (stop_seen m \<or> Stop_seen \<in> set evs)
   \<and> set (popped_now (foldl (monitor_step nms) m evs))
       = set (popped_now m) \<union> {nm. Popped nm \<in> set evs}"
proof (induction evs arbitrary: m)
  case Nil
  then show ?case by simp
next
  case (Cons e evs)
  then have p: "polling_events evs" and e: "e = Stop_seen \<or> (\<exists>nm. e = Popped nm)"
    by (simp_all add: polling_events_def)
  from e show ?case
  proof
    assume "e = Stop_seen"
    then show ?thesis using Cons.IH[OF p, of "monitor_step nms m e"] by auto
  next
    assume "\<exists>nm. e = Popped nm"
    then obtain nm where "e = Popped nm" by blast
    then show ?thesis using Cons.IH[OF p, of "monitor_step nms m e"] by auto
  qed
qed

lemma monitor_pushing:
  "pushing_events evs \<Longrightarrow> foldl (monitor_step nms) m evs = m"
  by (induction evs arbitrary: m) (auto simp: pushing_events_def)


lemma main_loop_in_order:
  assumes "sticky E"
  shows "in_order (foldl (monitor_step nms) m0 (trace w)) \<Longrightarrow>
         (stop_seen (foldl (monitor_step nms) m0 (trace w)) \<longrightarrow> isDone E (clock w)) \<Longrightarrow>
         nms = map fst (buffered_sockets_in (block w)) \<Longrightarrow>
         in_order (foldl (monitor_step nms) m0 (trace (state_of (main_loop n E task_id w))))"
proof (induction n arbitrary: w)
  case 0
  then show ?case by simp
next
  case (Suc n)
  let ?M = "\<lambda>tr. foldl (monitor_step nms) m0 tr"
  show ?case
  proof (cases "isDone E (clock w)")
    case True
    then show ?thesis using Suc.prems(1) by simp
  next
    case False
    note nd = this
    then have ns: "\<not> stop_seen (?M (trace w))" using Suc.prems(2) by blast
    let ?w1 = "w\<lparr>clock := Suc (clock w), trace := trace w @ [Iteration]\<rparr>"
    let ?o1 = "pop_inputs n E (map fst (buffered_sockets_in (block ?w1))) ?w1"
    have m1: "in_order (?M (trace ?w1))" "\<not> stop_seen (?M (trace ?w1))"
      using Suc.prems(1) ns by simp_all
    from pop_inputs_trace[OF assms, where n = n and nms = "map fst (buffered_sockets_in (block ?w1))" and w = ?w1]
    obtain evs where
      evs: "trace (state_of ?o1) = trace ?w1 @ evs" "polling_events evs"
        "map fst (buffered_sockets_in (block (state_of ?o1))) = map fst (buffered_sockets_in (block ?w1))"
        "\<forall>w'. ?o1 = Returned w' \<longrightarrow>
                 (Stop_seen \<notin> set evs \<longrightarrow> evs = map Popped (map fst (buffered_sockets_in (block ?w1))))
               \<and> (Stop_seen \<in> set evs \<longrightarrow> isDone E (clock w'))"
      by blast
    note mp = monitor_polling[OF evs(2), of nms "?M (trace ?w1)"]
    have m2: "in_order (?M (trace (state_of ?o1)))"
      using mp m1 evs(1) by simp
    have ml: "main_loop (Suc n) E task_id w =
        (case ?o1 of
              Returned w2 \<Rightarrow>
                if isDone E (clock w2) then Returned (w2\<lparr>clock := Suc (clock w2)\<rparr>)
                else
                  (let w3 = w2\<lparr>clock := Suc (clock w2)\<rparr>
                   in if \<not> (0 \<le> task_id \<and> nat task_id < length (tasks (block w3)))
                      then Crashed IndexOutOfRange w3
                      else
                        (let w4 = w3\<lparr>block := exec_task E (block w3),
                                     trace := trace w3 @ [Exec]\<rparr>
                         in case push_outputs n E (map fst (buffered_sockets_out (block w4))) w4 of
                              Returned w5 \<Rightarrow> main_loop n E task_id w5
                            | other \<Rightarrow> other))
            | other \<Rightarrow> other)"
      using nd by (simp add: Let_def)
    show ?thesis
    proof (cases ?o1)
      case (Returned w2)
      note r = this
      have tr2: "trace w2 = trace ?w1 @ evs"
        and keys2: "map fst (buffered_sockets_in (block w2)) = nms"
        using evs(1,3) r Suc.prems(3) by simp_all
      have in2: "in_order (?M (trace w2))" using m2 r by simp
      show ?thesis
      proof (cases "isDone E (clock w2)")
        case True
        then show ?thesis using ml r in2 by simp
      next
        case False
        note nd2 = this
        then have nostop: "Stop_seen \<notin> set evs" using evs(4) r by blast
        then have all: "evs = map Popped nms" using evs(4) r Suc.prems(3) by simp
        have st2: "\<not> stop_seen (?M (trace w2))"
          using mp m1 nostop tr2 by simp
        have pn2: "set nms \<subseteq> set (popped_now (?M (trace w2)))"
          using mp tr2 all by auto
        let ?w3 = "w2\<lparr>clock := Suc (clock w2)\<rparr>"
        show ?thesis
        proof (cases "0 \<le> task_id \<and> nat task_id < length (tasks (block ?w3))")
          case False
          then show ?thesis using ml r nd2 in2 by (simp add: Let_def)
        next
          case True
          let ?w4 = "?w3\<lparr>block := exec_task E (block ?w3), trace := trace ?w3 @ [Exec]\<rparr>"
          let ?o2 = "push_outputs n E (map fst (buffered_sockets_out (block ?w4))) ?w4"
          have m4: "in_order (?M (trace ?w4))" "\<not> stop_seen (?M (trace ?w4))"
            using in2 st2 pn2 by simp_all
          have ml2: "main_loop (Suc n) E task_id w =
              (case ?o2 of Returned w5 \<Rightarrow> main_loop n E task_id w5 | other \<Rightarrow> other)"
            using ml r nd2 True by (simp add: Let_def)
          from push_outputs_trace[where n = n and E = E
              and nms = "map fst (buffered_sockets_out (block ?w4))" and w = ?w4]
          obtain evs2 where
            e2: "trace (state_of ?o2) = trace ?w4 @ evs2" "pushing_events evs2"
              "map fst (buffered_sockets_in (block (state_of ?o2)))
                 = map fst (buffered_sockets_in (block ?w4))"
            by blast
          have m5: "?M (trace (state_of ?o2)) = ?M (trace ?w4)"
            using e2(1) monitor_pushing[OF e2(2)] by simp
          show ?thesis
          proof (cases ?o2)
            case (Returned w5)
            have "in_order (?M (trace w5))" "\<not> stop_seen (?M (trace w5))"
              using m5 m4 Returned by simp_all
            moreover have "nms = map fst (buffered_sockets_in (block w5))"
              using e2(3) Returned keys2 by (simp add: exec_task_inputs)
            ultimately have "in_order (?M (trace (state_of (main_loop n E task_id w5))))"
              by (intro Suc.IH) simp_all
            then show ?thesis using ml2 Returned by simp
          next
            case (OutOfFuel w5)
            then show ?thesis using ml2 m5 m4 by simp
          next
            case (Hangs w5)
            then show ?thesis using ml2 m5 m4 by simp
          next
            case (Crashed e w5)
            then show ?thesis using ml2 m5 m4 by simp
          qed
        qed
      qed
    next
      case (OutOfFuel w2)
      then show ?thesis using ml m2 by simp
    next
      case (Hangs w2)
      then show ?thesis using ml m2 by simp
    next
      case (Crashed e w2)
      then show ?thesis using ml m2 by simp
    qed
  qed
qed

lemma execute_task_trace:
  "trace (state_of (execute_task n E task_id w)) = trace (state_of (main_loop n E task_id w))"
  by (simp add: execute_task_def split: outcome.splits sum.splits)


lemma pop_inputs_after_stop:
  assumes "sticky E" and "isDone E (clock w)"
  shows "\<exists>w'. pop_inputs (Suc n) E nms w = Returned w' \<and> isDone E (clock w')"
  using assms(2)
proof (induction nms arbitrary: w)
  case Nil
  then show ?case by simp
next
  case (Cons nm nms)
  let ?w1 = "w\<lparr>clock := Suc (clock w), trace := trace w @ [Stop_seen]\<rparr>"
  have "isDone E (clock ?w1)" using stickyD[OF assms(1) Cons.prems, of "Suc (clock w)"] by simp
  from Cons.IH[OF this] show ?case using Cons.prems by simp
qed

lemma pop_inputs_exit:
  assumes "sticky E"
  shows "\<exists>evs. trace (state_of (pop_inputs n E nms w)) = trace w @ evs
           \<and> (Stop_seen \<in> set evs \<longrightarrow> (\<exists>w'. pop_inputs n E nms w = Returned w' \<and> isDone E (clock w')))"
proof (induction nms arbitrary: w)
  case Nil
  then show ?case by simp
next
  case (Cons nm nms)
  note pl = pop_loop_trace[OF assms, where n = n and nm = nm and w = w]
  show ?case
  proof (cases "pop_loop n E nm w")
    case (Returned w1)
    then have eq: "pop_inputs n E (nm # nms) w = pop_inputs n E nms w1" by simp
    from pl Returned have tr1: "trace w1 = trace w @ [Popped nm]
               \<or> trace w1 = trace w @ [Stop_seen] \<and> isDone E (clock w1)"
      by simp
    from Cons.IH[where w = w1] obtain evs where
      evs: "trace (state_of (pop_inputs n E nms w1)) = trace w1 @ evs"
        "Stop_seen \<in> set evs \<longrightarrow> (\<exists>w'. pop_inputs n E nms w1 = Returned w' \<and> isDone E (clock w'))"
      by blast
    from tr1 show ?thesis
    proof
      assume t: "trace w1 = trace w @ [Popped nm]"
      have "trace (state_of (pop_inputs n E nms w1)) = trace w @ (Popped nm # evs)"
        using evs(1) t by simp
      then show ?thesis unfolding eq using evs(2) by (intro exI[of _ "Popped nm # evs"]) simp
    next
      assume t: "trace w1 = trace w @ [Stop_seen] \<and> isDone E (clock w1)"
      have "n \<noteq> 0" using Returned by (cases n) simp_all
      then obtain n' where n: "n = Suc n'" by (cases n) simp_all
      from pop_inputs_after_stop[OF assms, of w1 n' nms] t
      have "\<exists>w'. pop_inputs n E nms w1 = Returned w' \<and> isDone E (clock w')"
        unfolding n by simp
      moreover have "trace (state_of (pop_inputs n E nms w1)) = trace w @ (Stop_seen # evs)"
        using evs(1) t by simp
      ultimately show ?thesis unfolding eq by (intro exI[of _ "Stop_seen # evs"]) simp
    qed
  next
    case (OutOfFuel w1)
    then show ?thesis using pl by simp
  next
    case (Hangs w1)
    then show ?thesis using pl by simp
  next
    case (Crashed e w1)
    then show ?thesis using pl by simp
  qed
qed

lemma pushing_events_no_stop: "pushing_events evs \<Longrightarrow> Stop_seen \<notin> set evs"
  by (auto simp: pushing_events_def)

lemma main_loop_exit:
  assumes "sticky E"
  shows "Stop_seen \<notin> set (trace w) \<Longrightarrow>
         Stop_seen \<in> set (trace (state_of (main_loop n E task_id w))) \<Longrightarrow>
         \<exists>w'. main_loop n E task_id w = Returned w' \<and> isDone E (clock w')"
proof (induction n arbitrary: w)
  case 0
  then show ?case by simp
next
  case (Suc n)
  show ?case
  proof (cases "isDone E (clock w)")
    case True
    then show ?thesis using Suc.prems by simp
  next
    case False
    note nd = this
    let ?w1 = "w\<lparr>clock := Suc (clock w), trace := trace w @ [Iteration]\<rparr>"
    let ?o1 = "pop_inputs n E (map fst (buffered_sockets_in (block ?w1))) ?w1"
    from pop_inputs_exit[OF assms, where n = n and nms = "map fst (buffered_sockets_in (block ?w1))" and w = ?w1]
    obtain evs where
      evs: "trace (state_of ?o1) = trace ?w1 @ evs"
        "Stop_seen \<in> set evs \<longrightarrow> (\<exists>w'. ?o1 = Returned w' \<and> isDone E (clock w'))"
      by blast
    have ml: "main_loop (Suc n) E task_id w =
        (case ?o1 of
              Returned w2 \<Rightarrow>
                if isDone E (clock w2) then Returned (w2\<lparr>clock := Suc (clock w2)\<rparr>)
                else
                  (let w3 = w2\<lparr>clock := Suc (clock w2)\<rparr>
                   in if \<not> (0 \<le> task_id \<and> nat task_id < length (tasks (block w3)))
                      then Crashed IndexOutOfRange w3
                      else
                        (let w4 = w3\<lparr>block := exec_task E (block w3),
                                     trace := trace w3 @ [Exec]\<rparr>
                         in case push_outputs n E (map fst (buffered_sockets_out (block w4))) w4 of
                              Returned w5 \<Rightarrow> main_loop n E task_id w5
                            | other \<Rightarrow> other))
            | other \<Rightarrow> other)"
      using nd by (simp add: Let_def)
    show ?thesis
    proof (cases ?o1)
      case (Returned w2)
      note r = this
      have tr2: "trace w2 = trace ?w1 @ evs" using evs(1) r by simp
      show ?thesis
      proof (cases "isDone E (clock w2)")
        case True
        have "isDone E (Suc (clock w2))" by (rule stickyD[OF assms True]) simp
        then show ?thesis using ml r True by simp
      next
        case False
        note nd2 = this
        then have nostop: "Stop_seen \<notin> set evs" using evs(2) r by auto
        then have ns2: "Stop_seen \<notin> set (trace w2)" using tr2 Suc.prems(1) by simp
        let ?w3 = "w2\<lparr>clock := Suc (clock w2)\<rparr>"
        show ?thesis
        proof (cases "0 \<le> task_id \<and> nat task_id < length (tasks (block ?w3))")
          case False
          then have "main_loop (Suc n) E task_id w = Crashed IndexOutOfRange ?w3"
            using ml r nd2 by (simp add: Let_def)
          then show ?thesis using Suc.prems(2) ns2 by simp
        next
          case True
          let ?w4 = "?w3\<lparr>block := exec_task E (block ?w3), trace := trace ?w3 @ [Exec]\<rparr>"
          let ?o2 = "push_outputs n E (map fst (buffered_sockets_out (block ?w4))) ?w4"
          have ml2: "main_loop (Suc n) E task_id w =
              (case ?o2 of Returned w5 \<Rightarrow> main_loop n E task_id w5 | other \<Rightarrow> other)"
            using ml r nd2 True by (simp add: Let_def)
          from push_outputs_trace[where n = n and E = E
              and nms = "map fst (buffered_sockets_out (block ?w4))" and w = ?w4]
          obtain evs2 where
            e2: "trace (state_of ?o2) = trace ?w4 @ evs2" "pushing_events evs2"
            by blast
          have ns5: "Stop_seen \<notin> set (trace (state_of ?o2))"
            using e2(1) pushing_events_no_stop[OF e2(2)] ns2 by simp
          show ?thesis
          proof (cases ?o2)
            case (Returned w5)
            have a: "Stop_seen \<notin> set (trace w5)" using ns5 Returned by simp
            have b: "Stop_seen \<in> set (trace (state_of (main_loop n E task_id w5)))"
              using Suc.prems(2) ml2 Returned by simp
            from Suc.IH[OF a b] show ?thesis using ml2 Returned by simp
          next
            case (OutOfFuel w5)
            then show ?thesis using ml2 ns5 Suc.prems(2) by simp
          next
            case (Hangs w5)
            then show ?thesis using ml2 ns5 Suc.prems(2) by simp
          next
            case (Crashed e w5)
            then show ?thesis using ml2 ns5 Suc.prems(2) by simp
          qed
        qed
      qed
    next
      case (OutOfFuel w2)
      then show ?thesis using ml evs Suc.prems by auto
    next
      case (Hangs w2)
      then show ?thesis using ml evs Suc.prems by auto
    next
      case (Crashed e w2)
      then show ?thesis using ml evs Suc.prems by auto
    qed
  qed
qed

lemma execute_task_after_main_loop:
  "main_loop n E task_id w = Returned w' \<Longrightarrow>
     (\<exists>w''. execute_task n E task_id w = Returned w'')
   \<or> (\<exists>e w''. execute_task n E task_id w = Crashed e w'')"
  by (simp add: execute_task_def split: sum.splits)

text \<open>
  The monitor rejects the traces the claim excludes: an execution with an input port not
  popped, an execution or a new iteration after the flag was seen set while polling, an
  execution on the pops of an earlier iteration.
\<close>

lemma monitor_rejects:
  "\<not> trace_in_order [''U_K''] [Iteration, Exec]"
  "\<not> trace_in_order [''U_K'', ''V_K''] [Iteration, Popped ''U_K'', Exec]"
  "\<not> trace_in_order [''U_K''] [Iteration, Popped ''U_K'', Stop_seen, Exec]"
  "\<not> trace_in_order [] [Iteration, Stop_seen, Iteration]"
  "\<not> trace_in_order [''U_K''] [Iteration, Popped ''U_K'', Exec, Iteration, Exec]"
  "trace_in_order [''U_K''] [Iteration, Popped ''U_K'', Exec, Pushed ''X_N'', Iteration, Stop_seen]"
  by (simp_all add: trace_in_order_def)

text \<open>
  Claim C4 as stated fails: it holds only for a flag that stays set. Here the flag is set
  at the worker's second read, unset at the third to fifth, and set from the sixth on. The
  polling loop of the first iteration sees it set and pops nothing, the test after the
  loops sees it unset, and the task is executed on an input that was not popped; the
  worker then pushes, enters the body again, and leaves the main loop only on the second
  observation of the flag.
\<close>

theorem flag_cleared_again_breaks_order:
  "(\<exists>w'. execute_task 3 ((quiet_env 0)\<lparr>isDone := (\<lambda>t. t = 1 \<or> 5 \<le> t)\<rparr>) 0 ex_worker = Returned w'
       \<and> trace w' = [Iteration, Stop_seen, Exec, Pushed ''X_N'', Iteration, Stop_seen])
   \<and> \<not> trace_in_order (map fst (buffered_sockets_in (block ex_worker)))
         [Iteration, Stop_seen, Exec, Pushed ''X_N'', Iteration, Stop_seen]"
proof
  have "(case execute_task 3 ((quiet_env 0)\<lparr>isDone := (\<lambda>t. t = 1 \<or> 5 \<le> t)\<rparr>) 0 ex_worker of
           Returned w' \<Rightarrow> trace w' = [Iteration, Stop_seen, Exec, Pushed ''X_N'', Iteration, Stop_seen]
         | other \<Rightarrow> False)"
    by code_simp
  then show "\<exists>w'. execute_task 3 ((quiet_env 0)\<lparr>isDone := (\<lambda>t. t = 1 \<or> 5 \<le> t)\<rparr>) 0 ex_worker
                  = Returned w'
       \<and> trace w' = [Iteration, Stop_seen, Exec, Pushed ''X_N'', Iteration, Stop_seen]"
    by (simp split: outcome.splits)
  show "\<not> trace_in_order (map fst (buffered_sockets_in (block ex_worker)))
         [Iteration, Stop_seen, Exec, Pushed ''X_N'', Iteration, Stop_seen]"
    by (simp add: trace_in_order_def ex_worker_def ex_block_def)
qed

text \<open>
  Claim C4, as amended: for a stop flag that stays set once it is set. Whatever the other
  threads do to the buffers, whatever the task computes and however long the worker runs,
  the trace of the worker is in order: the task is executed only when every input port of
  the block has been popped successfully since the body of the main loop was entered, and
  once the flag has been seen set in a polling loop the task is not executed and the body
  of the main loop is not entered again. And a worker that has seen the flag set in a
  polling loop has left its main loop: the loop has returned, with the flag set, and
  \<open>execute_task\<close> is not in a call that does not return.
\<close>

theorem exec_only_after_all_inputs_popped:
  assumes "\<forall>s t. s \<le> t \<longrightarrow> isDone E s \<longrightarrow> isDone E t"
    and "trace w = []"
  shows "trace_in_order (map fst (buffered_sockets_in (block w)))
           (trace (state_of (execute_task n E task_id w)))
       \<and> (Stop_seen \<in> set (trace (state_of (execute_task n E task_id w))) \<longrightarrow>
            (\<exists>w'. main_loop n E task_id w = Returned w' \<and> isDone E (clock w'))
          \<and> ((\<exists>w''. execute_task n E task_id w = Returned w'')
             \<or> (\<exists>e w''. execute_task n E task_id w = Crashed e w'')))"
proof -
  have s: "sticky E" using assms(1) by (simp add: sticky_def)
  have order: "trace_in_order (map fst (buffered_sockets_in (block w)))
           (trace (state_of (execute_task n E task_id w)))"
    unfolding trace_in_order_def execute_task_trace
    by (rule main_loop_in_order[OF s]) (simp_all add: assms(2))
  have exit: "(\<exists>w'. main_loop n E task_id w = Returned w' \<and> isDone E (clock w'))
          \<and> ((\<exists>w''. execute_task n E task_id w = Returned w'')
             \<or> (\<exists>e w''. execute_task n E task_id w = Crashed e w''))"
    if "Stop_seen \<in> set (trace (state_of (execute_task n E task_id w)))"
  proof -
    from that have "Stop_seen \<in> set (trace (state_of (main_loop n E task_id w)))"
      unfolding execute_task_trace .
    with main_loop_exit[OF s, of w n task_id] assms(2)
    obtain w' where w': "main_loop n E task_id w = Returned w'" "isDone E (clock w')" by auto
    from execute_task_after_main_loop[OF w'(1)] w' show ?thesis by blast
  qed
  from order exit show ?thesis by blast
qed

theorem exec_only_after_all_inputs_popped_witness:
  "trace (state_of (execute_task 5 (quiet_env 5) 0 ex_worker))
     = [Iteration, Popped ''U_K'', Exec, Pushed ''X_N'', Iteration, Stop_seen] \<and>
   trace_in_order (map fst (buffered_sockets_in (block ex_worker)))
     (trace (state_of (execute_task 5 (quiet_env 5) 0 ex_worker))) \<and>
   (\<exists>w'. main_loop 5 (quiet_env 5) 0 ex_worker = Returned w' \<and> isDone (quiet_env 5) (clock w')) \<and>
   (\<exists>w''. execute_task 5 (quiet_env 5) 0 ex_worker = Returned w'')"
proof -
  have h1: "\<forall>s t. s \<le> t \<longrightarrow> isDone (quiet_env 5) s \<longrightarrow> isDone (quiet_env 5) t"
    by (simp add: quiet_env_def)
  have h2: "trace ex_worker = []" by (simp add: ex_worker_def)
  have tr: "trace (state_of (execute_task 5 (quiet_env 5) 0 ex_worker))
     = [Iteration, Popped ''U_K'', Exec, Pushed ''X_N'', Iteration, Stop_seen]"
    by code_simp
  have "(case execute_task 5 (quiet_env 5) 0 ex_worker of Returned w'' \<Rightarrow> True | other \<Rightarrow> False)"
    by code_simp
  then have ret: "\<exists>w''. execute_task 5 (quiet_env 5) 0 ex_worker = Returned w''"
    by (simp split: outcome.splits)
  have seen: "Stop_seen \<in> set (trace (state_of (execute_task 5 (quiet_env 5) 0 ex_worker)))"
    unfolding tr by simp
  from exec_only_after_all_inputs_popped[OF h1 h2, where n = 5 and task_id = 0] seen tr ret
  show ?thesis by simp
qed

text \<open>
  A worker that is inside \<open>push\<close> reads the flag no more. The source block has one
  output port and a buffer of one slot that nobody drains: the first iteration fills the
  buffer, the second one enters \<open>push\<close> and stays there, whatever the flag is from its
  seventh read on.
\<close>

lemma worker_hangs:
  assumes "\<forall>t<6. \<not> isDone E t" and "interfere E = (\<lambda>t. quiet)"
  shows "\<exists>w. execute_task (Suc (Suc (Suc n))) E 0 source_worker = Hangs w \<and> clock w = 6"
proof -
  have f: "\<not> isDone E 0" "\<not> isDone E (Suc 0)" "\<not> isDone E (Suc (Suc 0))"
    "\<not> isDone E (Suc (Suc (Suc 0)))" "\<not> isDone E (Suc (Suc (Suc (Suc 0))))"
    "\<not> isDone E (Suc (Suc (Suc (Suc (Suc 0)))))"
    using assms(1) by (simp_all add: eval_nat_numeral)
  show ?thesis
    using f assms(2)
    by (simp add: execute_task_def source_worker_def Block_new_def source_generate_def
        has_port_branch_def Buffered_Socket_new_def Circular_Buffer_new_def Let_def
        exec_task_def staged_def write_staged_def Buffered_Socket_push_def copy_staging_def retry_push_quiet
        Circular_Buffer_push_def capacity_def numeral_2_eq_2 numeral_3_eq_3)
qed

text \<open>
  Claim C3 fails on the code. The flag is unset at the first six reads and set at every
  later one. The worker has read it six times when it enters the \<open>push\<close> that finds
  the buffer full, and it never reads it again: with any fuel of 3 or more the run ends
  inside that call, at clock 6.
\<close>

theorem worker_hangs_in_push_after_stop:
  "isDone (quiet_env 6) (6 + t) \<and>
   (\<exists>w. execute_task (n + 3) (quiet_env 6) 0 source_worker = Hangs w \<and> clock w = 6)"
proof
  show "isDone (quiet_env 6) (6 + t)" by (simp add: quiet_env_def)
next
  have n: "n + 3 = Suc (Suc (Suc n))" by simp
  have "\<forall>t<6. \<not> isDone (quiet_env 6) t" "interfere (quiet_env 6) = (\<lambda>t. quiet)"
    by (simp_all add: quiet_env_def)
  then show "\<exists>w. execute_task (n + 3) (quiet_env 6) 0 source_worker = Hangs w \<and> clock w = 6"
    unfolding n by (rule worker_hangs)
qed

section \<open>Fan-out to two consumers\<close>

lemma fan_step_produce:
  assumes inv: "fan_inv n a a1 c0 s" and len: "length v = n"
  shows "(fan_full a a1 s \<longrightarrow> fan_step s (Produce v) = None)
       \<and> (\<not> fan_full a a1 s \<longrightarrow> (\<exists>s'. fan_step s (Produce v) = Some (Inr s') \<and> fan_inv n a a1 c0 s'))"
proof -
  let ?P = "write_staged v (producer s)"
  let ?h = "buffers s"
  from inv obtain x y where sd: "socket_data (producer s) = [x, y]" and y: "length y = n"
    by (auto simp: fan_inv_def)
  from inv have bf: "buffer (producer s) = [a, a1]" and dp: "dataptr (socket (producer s)) = Some 0"
    and ne: "a \<noteq> a1" and va: "a < length ?h" "a1 < length ?h"
    and ci: "cb_inv (?h ! a)" "cb_inv (?h ! a1)"
    by (auto simp: fan_inv_def)
  have P: "?P = (producer s)\<lparr>socket_data := [v, y]\<rparr>"
    using dp sd by (simp add: write_staged_def)
  have h1: "socket_data ?P = v # [y]" by (simp add: P)
  have h2: "\<forall>r\<in>set [y]. length r = length v" using y len by simp
  have h3: "length (buffer ?P) = length (socket_data ?P)" using bf by (simp add: P)
  have h4: "distinct (buffer ?P)" using bf ne by (simp add: P)
  have h5: "\<forall>x\<in>set (buffer ?P). x < length ?h \<and> cb_inv (?h ! x)"
    using bf va ci by (simp add: P)
  note spec = Buffered_Socket_push_quiet[OF h1 h2 h3 h4 h5]
  have bP: "set (buffer ?P) = {a, a1}" using bf by (simp add: P)
  show ?thesis
  proof (intro conjI impI)
    assume "fan_full a a1 s"
    then have "\<exists>x\<in>set (buffer ?P). occupied (?h ! x) = capacity (?h ! x)"
      unfolding bP by (auto simp: fan_full_def)
    with spec have "Buffered_Socket_push quiet ?P ?h = None" by blast
    then show "fan_step s (Produce v) = None" by simp
  next
    assume "\<not> fan_full a a1 s"
    then have "\<forall>x\<in>set (buffer ?P). occupied (?h ! x) \<noteq> capacity (?h ! x)"
      unfolding bP by (auto simp: fan_full_def)
    with spec obtain h' where
      push: "Buffered_Socket_push quiet ?P ?h =
               Some (Inr (0, ?P\<lparr>socket_data := replicate (length (socket_data ?P)) v,
                                 socket := (socket ?P)\<lparr>dataptr := Some 0\<rparr>\<rparr>, h'))"
      and lh: "length h' = length ?h"
      and fr: "\<forall>x<length ?h. (x \<in> set (buffer ?P) \<longrightarrow> cb_contents (h' ! x) = cb_contents (?h ! x) @ [v]
                                                  \<and> cb_inv (h' ! x))
                    \<and> (x \<notin> set (buffer ?P) \<longrightarrow> h' ! x = ?h ! x)"
      by blast
    let ?s' = "s\<lparr>producer := ?P\<lparr>socket_data := replicate (length (socket_data ?P)) v,
                                 socket := (socket ?P)\<lparr>dataptr := Some 0\<rparr>\<rparr>,
                  buffers := h', produced := produced s @ [v]\<rparr>"
    have step: "fan_step s (Produce v) = Some (Inr ?s')" using push by simp
    have ca: "cb_contents (h' ! a) = cb_contents (?h ! a) @ [v]" "cb_inv (h' ! a)"
      and ca1: "cb_contents (h' ! a1) = cb_contents (?h ! a1) @ [v]" "cb_inv (h' ! a1)"
      using fr va bP by auto
    from inv have eqA: "received_A s @ cb_contents (?h ! a) = c0 @ produced s"
      and eqB: "received_B s @ cb_contents (?h ! a1) = produced s"
      and cons: "buffer (consumer_A s) = [a]" "\<exists>r. socket_data (consumer_A s) = [r]"
        "buffer (consumer_B s) = [a1]" "\<exists>r. socket_data (consumer_B s) = [r]"
      by (simp_all add: fan_inv_def)
    have sA: "received_A s @ cb_contents (h' ! a) = c0 @ produced s @ [v]"
      by (metis append_assoc eqA ca(1))
    have sB: "received_B s @ cb_contents (h' ! a1) = produced s @ [v]"
      by (metis append_assoc eqB ca1(1))
    have "fan_inv n a a1 c0 ?s'"
      unfolding fan_inv_def
      using bf dp ne va lh len ca(2) ca1(2) sA sB cons
      by (simp add: P numeral_2_eq_2)
    with step show "\<exists>s'. fan_step s (Produce v) = Some (Inr s') \<and> fan_inv n a a1 c0 s'"
      by blast
  qed
qed


lemma fan_step_consume_A:
  assumes inv: "fan_inv n a a1 c0 s"
  shows "\<exists>s'. fan_step s Consume_A = Some (Inr s') \<and> fan_inv n a a1 c0 s'"
proof -
  let ?h = "buffers s"
  from inv obtain r where b: "buffer (consumer_A s) = a # []" and sd: "socket_data (consumer_A s) = r # []"
    by (auto simp: fan_inv_def)
  from inv have va: "a < length ?h" and ci: "cb_inv (?h ! a)" and ne: "a \<noteq> a1"
    and eqA: "received_A s @ cb_contents (?h ! a) = c0 @ produced s"
    by (simp_all add: fan_inv_def)
  note spec = Buffered_Socket_pop_spec[OF b sd va ci]
  show ?thesis
  proof (cases "cb_contents (?h ! a) = []")
    case True
    with spec have "Buffered_Socket_pop (consumer_A s) ?h = Inr (1, consumer_A s, ?h)" by blast
    then have "fan_step s Consume_A = Some (Inr (s\<lparr>consumer_A := consumer_A s, buffers := ?h\<rparr>))"
      by simp
    moreover have "s\<lparr>consumer_A := consumer_A s, buffers := ?h\<rparr> = s" by simp
    ultimately show ?thesis using inv by simp
  next
    case False
    with spec obtain b' where
      pop: "Buffered_Socket_pop (consumer_A s) ?h =
              Inr (0, (consumer_A s)\<lparr>socket_data := hd (cb_contents (?h ! a)) # [],
                                    socket := (socket (consumer_A s))\<lparr>dataptr := Some 0\<rparr>\<rparr>,
                   ?h[a := b'])"
      and c: "cb_contents b' = tl (cb_contents (?h ! a))" and ci': "cb_inv b'"
      by blast
    let ?c = "(consumer_A s)\<lparr>socket_data := hd (cb_contents (?h ! a)) # [],
                                    socket := (socket (consumer_A s))\<lparr>dataptr := Some 0\<rparr>\<rparr>"
    let ?s' = "s\<lparr>consumer_A := ?c, buffers := ?h[a := b'],
                  received_A := received_A s @ [staged ?c]\<rparr>"
    have step: "fan_step s Consume_A = Some (Inr ?s')" using pop by simp
    have st: "staged ?c = hd (cb_contents (?h ! a))" by (simp add: staged_def)
    have "cb_contents (?h ! a) = staged ?c # cb_contents b'"
      using False c by (simp add: st)
    then have sA: "(received_A s @ [staged ?c]) @ cb_contents (?h[a := b'] ! a) = c0 @ produced s"
      using eqA va by (metis append_Cons append_Nil append_assoc nth_list_update_eq)
    have other: "?h[a := b'] ! a1 = ?h ! a1" using ne by simp
    have "fan_inv n a a1 c0 ?s'"
      unfolding fan_inv_def
      using inv sA other ci' va b
      by (simp add: fan_inv_def)
    with step show ?thesis by blast
  qed
qed

lemma fan_step_consume_B:
  assumes inv: "fan_inv n a a1 c0 s"
  shows "\<exists>s'. fan_step s Consume_B = Some (Inr s') \<and> fan_inv n a a1 c0 s'"
proof -
  let ?h = "buffers s"
  from inv obtain r where b: "buffer (consumer_B s) = a1 # []" and sd: "socket_data (consumer_B s) = r # []"
    by (auto simp: fan_inv_def)
  from inv have va: "a1 < length ?h" and ci: "cb_inv (?h ! a1)" and ne: "a \<noteq> a1"
    and eqB: "received_B s @ cb_contents (?h ! a1) = produced s"
    by (simp_all add: fan_inv_def)
  note spec = Buffered_Socket_pop_spec[OF b sd va ci]
  show ?thesis
  proof (cases "cb_contents (?h ! a1) = []")
    case True
    with spec have "Buffered_Socket_pop (consumer_B s) ?h = Inr (1, consumer_B s, ?h)" by blast
    then have "fan_step s Consume_B = Some (Inr (s\<lparr>consumer_B := consumer_B s, buffers := ?h\<rparr>))"
      by simp
    moreover have "s\<lparr>consumer_B := consumer_B s, buffers := ?h\<rparr> = s" by simp
    ultimately show ?thesis using inv by simp
  next
    case False
    with spec obtain b' where
      pop: "Buffered_Socket_pop (consumer_B s) ?h =
              Inr (0, (consumer_B s)\<lparr>socket_data := hd (cb_contents (?h ! a1)) # [],
                                    socket := (socket (consumer_B s))\<lparr>dataptr := Some 0\<rparr>\<rparr>,
                   ?h[a1 := b'])"
      and c: "cb_contents b' = tl (cb_contents (?h ! a1))" and ci': "cb_inv b'"
      by blast
    let ?c = "(consumer_B s)\<lparr>socket_data := hd (cb_contents (?h ! a1)) # [],
                                    socket := (socket (consumer_B s))\<lparr>dataptr := Some 0\<rparr>\<rparr>"
    let ?s' = "s\<lparr>consumer_B := ?c, buffers := ?h[a1 := b'],
                  received_B := received_B s @ [staged ?c]\<rparr>"
    have step: "fan_step s Consume_B = Some (Inr ?s')" using pop by simp
    have st: "staged ?c = hd (cb_contents (?h ! a1))" by (simp add: staged_def)
    have "cb_contents (?h ! a1) = staged ?c # cb_contents b'"
      using False c by (simp add: st)
    then have sB: "(received_B s @ [staged ?c]) @ cb_contents (?h[a1 := b'] ! a1) = produced s"
      using eqB va by (metis append_Cons append_Nil append_assoc nth_list_update_eq)
    have other: "?h[a1 := b'] ! a = ?h ! a" using ne by simp
    have "fan_inv n a a1 c0 ?s'"
      unfolding fan_inv_def
      using inv sB other ci' va b
      by (simp add: fan_inv_def)
    with step show ?thesis by blast
  qed
qed


lemma fan_run_inv:
  assumes "fan_inv n a a1 c0 s" and "\<forall>v. Produce v \<in> set ops \<longrightarrow> length v = n"
  shows "(\<forall>e. fan_run s ops \<noteq> Some (Inl e))
       \<and> (\<forall>s'. fan_run s ops = Some (Inr s') \<longrightarrow> fan_inv n a a1 c0 s')
       \<and> (fan_run s ops = None \<longrightarrow>
            (\<exists>xs v rest s1. ops = xs @ Produce v # rest \<and> fan_run s xs = Some (Inr s1)
                             \<and> fan_full a a1 s1))"
  using assms
proof (induction ops arbitrary: s)
  case Nil
  then show ?case by simp
next
  case (Cons x ops)
  have rest: "\<forall>v. Produce v \<in> set ops \<longrightarrow> length v = n" using Cons.prems(2) by simp
  have "fan_step s x = None \<and> (\<exists>v. x = Produce v) \<and> fan_full a a1 s
      \<or> (\<exists>s'. fan_step s x = Some (Inr s') \<and> fan_inv n a a1 c0 s')"
  proof (cases x)
    case (Produce v)
    then have "length v = n" using Cons.prems(2) by simp
    from fan_step_produce[OF Cons.prems(1) this] Produce show ?thesis by blast
  next
    case Consume_A
    then show ?thesis using fan_step_consume_A[OF Cons.prems(1)] by simp
  next
    case Consume_B
    then show ?thesis using fan_step_consume_B[OF Cons.prems(1)] by simp
  qed
  then show ?case
  proof
    assume b: "fan_step s x = None \<and> (\<exists>v. x = Produce v) \<and> fan_full a a1 s"
    then obtain v where v: "x = Produce v" by blast
    have "x # ops = [] @ Produce v # ops \<and> fan_run s [] = Some (Inr s) \<and> fan_full a a1 s"
      using b v by simp
    then have "\<exists>xs v rest s1. x # ops = xs @ Produce v # rest \<and> fan_run s xs = Some (Inr s1)
                             \<and> fan_full a a1 s1"
      by blast
    moreover have "fan_run s (x # ops) = None" using b by simp
    ultimately show ?thesis by simp
  next
    assume "\<exists>s'. fan_step s x = Some (Inr s') \<and> fan_inv n a a1 c0 s'"
    then obtain s' where st: "fan_step s x = Some (Inr s')" and inv': "fan_inv n a a1 c0 s'"
      by blast
    have run: "fan_run s (x # ops) = fan_run s' ops" using st by simp
    note ih = Cons.IH[OF inv' rest]
    have "fan_run s' ops = None \<longrightarrow>
            (\<exists>xs v rest s1. x # ops = xs @ Produce v # rest \<and> fan_run s xs = Some (Inr s1)
                             \<and> fan_full a a1 s1)"
    proof
      assume "fan_run s' ops = None"
      with ih obtain xs v rest s1 where
        d: "ops = xs @ Produce v # rest" "fan_run s' xs = Some (Inr s1)" "fan_full a a1 s1"
        by blast
      have "x # ops = (x # xs) @ Produce v # rest" using d(1) by simp
      moreover have "fan_run s (x # xs) = Some (Inr s1)" using st d(2) by simp
      ultimately show "\<exists>xs v rest s1. x # ops = xs @ Produce v # rest \<and> fan_run s xs = Some (Inr s1)
                             \<and> fan_full a a1 s1"
        using d(3) by blast
    qed
    with ih show ?thesis unfolding run by blast
  qed
qed

lemma fan_out_spec:
  assumes "socket_type P \<noteq> IN" and "1 \<le> buffer_size P" and "buffer P = [a]"
    and "socket_data P = [r]" and "dataptr (socket P) = Some 0"
    and "buffer A = [a]" and "socket_data A = [rA]"
    and "socket_type B = IN" and "buffer B = []" and "socket_data B = [rB]"
    and "a < length h" and "cb_inv (h ! a)"
    and "\<forall>v. Produce v \<in> set ops \<longrightarrow> length v = n_elmts (socket P)"
  shows "\<exists>P' B' h'.
           Buffered_Socket_bind_cpy B (Some P) h = Inr (0, B', P', h')
         \<and> buffer P' = [a, length h] \<and> length (socket_data P') = 2 \<and> buffer B' = [length h]
         \<and> length h' = Suc (length h) \<and> cb_contents (h' ! length h) = [] \<and> h' ! a = h ! a
         \<and> (\<forall>e. fan_run (fan_start P' A B' h') ops \<noteq> Some (Inl e))
         \<and> (\<forall>s. fan_run (fan_start P' A B' h') ops = Some (Inr s) \<longrightarrow>
                received_A s @ cb_contents (buffers s ! a) = cb_contents (h ! a) @ produced s
              \<and> received_B s @ cb_contents (buffers s ! length h) = produced s)
         \<and> (fan_run (fan_start P' A B' h') ops = None \<longrightarrow>
              (\<exists>xs v rest s1. ops = xs @ Produce v # rest
                 \<and> fan_run (fan_start P' A B' h') xs = Some (Inr s1)
                 \<and> fan_full a (length h) s1))"
proof -
  let ?n = "n_elmts (socket P)"
  let ?P = "P\<lparr>socket_data := socket_data P @ [replicate ?n 0], buffer := buffer P @ [length h]\<rparr>"
  let ?B = "B\<lparr>buffer := buffer B @ [length h]\<rparr>"
  have "buffer P \<noteq> [] \<and> socket_type P \<noteq> IN \<and> 1 \<le> buffer_size P"
    using assms(1-3) by simp
  with port_bind_spec[where this = B and s = P and h = h] assms(8)
  obtain b where nb: "Circular_Buffer_new (buffer_size P) ?n = Inr b"
    and bc: "Buffered_Socket_bind_cpy B (Some P) h = Inr (0, ?B, ?P, h @ [b])"
    by blast
  have fresh: "cb_inv b" "cb_contents b = []" using cb_inv_new[OF nb] by simp_all
  let ?s0 = "fan_start ?P A ?B (h @ [b])"
  have inv0: "fan_inv ?n a (length h) (cb_contents (h ! a)) ?s0"
    unfolding fan_inv_def fan_start_def
    using assms(3-7,9-12) fresh by (simp add: nth_append)
  note run = fan_run_inv[OF inv0 assms(13)]
  have streams: "\<forall>s. fan_run ?s0 ops = Some (Inr s) \<longrightarrow>
                received_A s @ cb_contents (buffers s ! a) = cb_contents (h ! a) @ produced s
              \<and> received_B s @ cb_contents (buffers s ! length h) = produced s"
    using run by (auto simp: fan_inv_def)
  have shape: "buffer ?P = [a, length h]" "length (socket_data ?P) = 2" "buffer ?B = [length h]"
    "length (h @ [b]) = Suc (length h)" "cb_contents ((h @ [b]) ! length h) = []"
    "(h @ [b]) ! a = h ! a"
    using assms(3,4,9,11) fresh(2) by (simp_all add: nth_append)
  from run have r1: "\<forall>e. fan_run ?s0 ops \<noteq> Some (Inl e)"
    and r3: "fan_run ?s0 ops = None \<longrightarrow>
              (\<exists>xs v rest s1. ops = xs @ Produce v # rest
                 \<and> fan_run ?s0 xs = Some (Inr s1) \<and> fan_full a (length h) s1)"
    by blast+
  show ?thesis
    by (rule exI[of _ ?P], rule exI[of _ ?B], rule exI[of _ "h @ [b]"])
       (intro conjI bc shape r1 streams r3)
qed

text \<open>
  Claim C8. A producer port that is not an input port has one buffer, which consumer A
  references, and a capacity of at least 1; consumer B is an input port without a buffer.
  \<open>bind_cpy\<close> of B to the producer returns 0 and gives the producer a second, new and
  empty buffer with a staging record of its own, which B references. From then on, under
  every schedule of pushes of records of the port's width and of pops of the two
  consumers, nothing fails; as long as no push meets a full buffer, what A has received
  followed by what is queued for A is what was queued before followed by the records
  pushed, and what B has received followed by what is queued for B is the records pushed,
  whichever consumer drains faster; and the run stops only at a push that finds one of the
  two buffers full.
\<close>

theorem fan_out_delivers_to_both:
  assumes "socket_type P \<noteq> IN" and "1 \<le> buffer_size P" and "buffer P = [a]"
    and "socket_data P = [r]" and "dataptr (socket P) = Some 0"
    and "buffer A = [a]" and "socket_data A = [rA]"
    and "socket_type B = IN" and "buffer B = []" and "socket_data B = [rB]"
    and "a < length h" and "cb_inv (h ! a)"
    and "\<forall>v. Produce v \<in> set ops \<longrightarrow> length v = n_elmts (socket P)"
  shows "\<exists>P' B' h'.
           Buffered_Socket_bind_cpy B (Some P) h = Inr (0, B', P', h')
         \<and> buffer P' = [a, length h] \<and> length (socket_data P') = 2 \<and> buffer B' = [length h]
         \<and> length h' = Suc (length h) \<and> cb_contents (h' ! length h) = [] \<and> h' ! a = h ! a
         \<and> (\<forall>e. fan_run (fan_start P' A B' h') ops \<noteq> Some (Inl e))
         \<and> (\<forall>s. fan_run (fan_start P' A B' h') ops = Some (Inr s) \<longrightarrow>
                received_A s @ cb_contents (buffers s ! a) = cb_contents (h ! a) @ produced s
              \<and> received_B s @ cb_contents (buffers s ! length h) = produced s)
         \<and> (fan_run (fan_start P' A B' h') ops = None \<longrightarrow>
              (\<exists>xs v rest s1. ops = xs @ Produce v # rest
                 \<and> fan_run (fan_start P' A B' h') xs = Some (Inr s1)
                 \<and> fan_full a (length h) s1))"
  using assms by (rule fan_out_spec)

theorem fan_out_delivers_to_both_witness:
  "(case Buffered_Socket_bind_cpy (ex_in_port\<lparr>buffer := []\<rparr>) (Some ex_producer) [ex_half_ring] of
      Inl e \<Rightarrow> None
    | Inr (rc, B', P', h') \<Rightarrow>
       (case fan_run (fan_start P' ex_in_port B' h') ex_schedule of
          Some (Inr s) \<Rightarrow> Some (produced s, received_A s, received_B s,
                                 cb_contents (buffers s ! 0), cb_contents (buffers s ! 1))
        | _ \<Rightarrow> None))
     = Some ([[1, 1], [2, 2], [3, 3]], [[7, 8], [1, 1], [2, 2]], [[1, 1]], [[3, 3]], [[2, 2], [3, 3]])
   \<and> (\<exists>P' B' h'.
           Buffered_Socket_bind_cpy (ex_in_port\<lparr>buffer := []\<rparr>) (Some ex_producer) [ex_half_ring]
             = Inr (0, B', P', h')
         \<and> buffer P' = [0, length [ex_half_ring]] \<and> length (socket_data P') = 2
         \<and> buffer B' = [length [ex_half_ring]]
         \<and> length h' = Suc (length [ex_half_ring]) \<and> cb_contents (h' ! length [ex_half_ring]) = []
         \<and> h' ! 0 = [ex_half_ring] ! 0
         \<and> (\<forall>e. fan_run (fan_start P' ex_in_port B' h') ex_schedule \<noteq> Some (Inl e))
         \<and> (\<forall>s. fan_run (fan_start P' ex_in_port B' h') ex_schedule = Some (Inr s) \<longrightarrow>
                received_A s @ cb_contents (buffers s ! 0)
                  = cb_contents ([ex_half_ring] ! 0) @ produced s
              \<and> received_B s @ cb_contents (buffers s ! length [ex_half_ring]) = produced s)
         \<and> (fan_run (fan_start P' ex_in_port B' h') ex_schedule = None \<longrightarrow>
              (\<exists>xs v rest s1. ex_schedule = xs @ Produce v # rest
                 \<and> fan_run (fan_start P' ex_in_port B' h') xs = Some (Inr s1)
                 \<and> fan_full 0 (length [ex_half_ring]) s1)))"
proof
  show "(case Buffered_Socket_bind_cpy (ex_in_port\<lparr>buffer := []\<rparr>) (Some ex_producer) [ex_half_ring] of
      Inl e \<Rightarrow> None
    | Inr (rc, B', P', h') \<Rightarrow>
       (case fan_run (fan_start P' ex_in_port B' h') ex_schedule of
          Some (Inr s) \<Rightarrow> Some (produced s, received_A s, received_B s,
                                 cb_contents (buffers s ! 0), cb_contents (buffers s ! 1))
        | _ \<Rightarrow> None))
     = Some ([[1, 1], [2, 2], [3, 3]], [[7, 8], [1, 1], [2, 2]], [[1, 1]], [[3, 3]], [[2, 2], [3, 3]])"
    by code_simp
next
  have p: "socket_type ex_producer \<noteq> IN" "1 \<le> buffer_size ex_producer" "buffer ex_producer = [0]"
    "socket_data ex_producer = [[0, 0]]" "dataptr (socket ex_producer) = Some 0"
    by (simp_all add: ex_producer_def)
  have a: "buffer ex_in_port = [0]" "socket_data ex_in_port = [[0, 0]]"
    by (simp_all add: ex_in_port_def)
  have b: "socket_type (ex_in_port\<lparr>buffer := []\<rparr>) = IN" "buffer (ex_in_port\<lparr>buffer := []\<rparr>) = []"
    "socket_data (ex_in_port\<lparr>buffer := []\<rparr>) = [[0, 0]]"
    by (simp_all add: ex_in_port_def)
  have h: "0 < length [ex_half_ring]" "cb_inv ([ex_half_ring] ! 0)"
    by (simp_all add: cb_inv_def capacity_def ex_half_ring_def)
  have w: "\<forall>v. Produce v \<in> set ex_schedule \<longrightarrow> length v = n_elmts (socket ex_producer)"
    by (auto simp: ex_schedule_def ex_producer_def)
  show "\<exists>P' B' h'.
           Buffered_Socket_bind_cpy (ex_in_port\<lparr>buffer := []\<rparr>) (Some ex_producer) [ex_half_ring]
             = Inr (0, B', P', h')
         \<and> buffer P' = [0, length [ex_half_ring]] \<and> length (socket_data P') = 2
         \<and> buffer B' = [length [ex_half_ring]]
         \<and> length h' = Suc (length [ex_half_ring]) \<and> cb_contents (h' ! length [ex_half_ring]) = []
         \<and> h' ! 0 = [ex_half_ring] ! 0
         \<and> (\<forall>e. fan_run (fan_start P' ex_in_port B' h') ex_schedule \<noteq> Some (Inl e))
         \<and> (\<forall>s. fan_run (fan_start P' ex_in_port B' h') ex_schedule = Some (Inr s) \<longrightarrow>
                received_A s @ cb_contents (buffers s ! 0)
                  = cb_contents ([ex_half_ring] ! 0) @ produced s
              \<and> received_B s @ cb_contents (buffers s ! length [ex_half_ring]) = produced s)
         \<and> (fan_run (fan_start P' ex_in_port B' h') ex_schedule = None \<longrightarrow>
              (\<exists>xs v rest s1. ex_schedule = xs @ Produce v # rest
                 \<and> fan_run (fan_start P' ex_in_port B' h') xs = Some (Inr s1)
                 \<and> fan_full 0 (length [ex_half_ring]) s1))"
    by (rule fan_out_delivers_to_both[OF p a b h w])
qed

end
